theory Spec2Isabelle
  imports Complex_Main "HOL-Library.Char_ord" "HOL-Library.List_Lexorder" "HOL-Library.Multiset"
begin

section \<open>The index database of gogdb/updater/indexdb.py\<close>

text \<open>
  The module rebuilds an SQLite index file from product bundles. The model has three
  layers: the SQL store behind a cursor (tables of rows of SQL values), the file system
  and connection the processor works on (the state \<open>world\<close>), and the functions of the
  module itself, each named as in the source. A Python exception is the outcome
  \<open>Raised\<close>, which keeps the state reached when it was raised.
\<close>

subsection \<open>Errors and outcomes\<close>

datatype error = ValueError | AttributeError | TypeError | OSError
  | OperationalError | ProgrammingError

subsection \<open>SQL values, tables and the store\<close>

datatype sqlval = SqlNull | SqlInt int | SqlText string | SqlReal real

type_synonym row = "sqlval list"

record table =
  columns :: "string list"
  rows :: "row list"

text \<open>An index of the schema: its name, its table and the column it is on.\<close>

record store =
  tables :: "(string \<times> table) list"
  indexes :: "(string \<times> string \<times> string) list"

definition empty_store :: store where
  "empty_store = \<lparr>tables = [], indexes = []\<rparr>"

fun put_table :: "string \<Rightarrow> table \<Rightarrow> (string \<times> table) list \<Rightarrow> (string \<times> table) list" where
  "put_table n t [] = [(n, t)]"
| "put_table n t ((k, v) # kvs) =
     (if k = n then (k, t) # kvs else (k, v) # put_table n t kvs)"

datatype statement =
    CreateTable string "string list"
  | CreateIndex string string string
  | Insert string row
  | Delete string
  | Begin
  | End

text \<open>
  One statement on the store as the connection sees it. The flag is whether a
  transaction is open. SQLite refuses to create a table or an index that exists, to use
  a table or a column that does not, to insert a row of the wrong width, to begin a
  transaction inside one and to end one that is not open.
\<close>

fun run_statement :: "statement \<Rightarrow> store \<times> bool \<Rightarrow> error + store \<times> bool" where
  "run_statement (CreateTable n cols) (s, t) =
     (if map_of (tables s) n \<noteq> None then Inl OperationalError
      else Inr (s\<lparr>tables := tables s @ [(n, \<lparr>columns = cols, rows = []\<rparr>)]\<rparr>, t))"
| "run_statement (CreateIndex i n c) (s, t) =
     (if i \<in> set (map fst (indexes s)) then Inl OperationalError
      else (case map_of (tables s) n of
              None \<Rightarrow> Inl OperationalError
            | Some tb \<Rightarrow>
                if c \<in> set (columns tb)
                then Inr (s\<lparr>indexes := indexes s @ [(i, n, c)]\<rparr>, t)
                else Inl OperationalError))"
| "run_statement (Insert n r) (s, t) =
     (case map_of (tables s) n of
        None \<Rightarrow> Inl OperationalError
      | Some tb \<Rightarrow>
          if length r = length (columns tb)
          then Inr (s\<lparr>tables := put_table n (tb\<lparr>rows := rows tb @ [r]\<rparr>) (tables s)\<rparr>, t)
          else Inl OperationalError)"
| "run_statement (Delete n) (s, t) =
     (case map_of (tables s) n of
        None \<Rightarrow> Inl OperationalError
      | Some tb \<Rightarrow> Inr (s\<lparr>tables := put_table n (tb\<lparr>rows := []\<rparr>) (tables s)\<rparr>, t))"
| "run_statement Begin (s, t) = (if t then Inl OperationalError else Inr (s, True))"
| "run_statement End (s, t) = (if t then Inr (s, False) else Inl OperationalError)"

subsection \<open>Paths\<close>

text \<open>A pathlib path is the list of its parts; the empty list is the path \<open>.\<close>\<close>

type_synonym path = "string list"

definition path_parent :: "path \<Rightarrow> path" where
  "path_parent p = butlast p"

definition path_name :: "path \<Rightarrow> string" where
  "path_name p = (if p = [] then [] else last p)"

text \<open>\<open>with_name\<close> raises ValueError on a path that has no name.\<close>

definition with_name :: "path \<Rightarrow> string \<Rightarrow> error + path" where
  "with_name p n = (if path_name p = [] \<or> n = [] then Inl ValueError else Inr (butlast p @ [n]))"

subsection \<open>The world: files, directories, the connection\<close>

datatype handle = Unset | Opened | Closed

text \<open>
  The connection of \<open>aiosqlite.connect(path, isolation_level=None)\<close>: the file it is
  on, the store as the connection sees it, and whether a transaction is open. Outside a
  transaction every statement is written to the file at once (autocommit); inside one
  the file is written when the transaction ends.
\<close>

record connection =
  database :: path
  view :: store
  in_transaction :: bool
  closed :: bool

text \<open>
  \<open>fs\<close> maps a path to the database file there, \<open>dirs\<close> are the directories.
  \<open>conn\<close> and \<open>cur\<close> are the fields \<open>self.conn\<close> and \<open>self.cur\<close> of the processor.
  \<open>budget\<close> is the number of operations on the outside world that still succeed: the
  operation after them fails (a storage or file-system failure, or the cancellation of
  the run at that point). \<open>printed\<close> is the standard output.
\<close>

record world =
  fs :: "path \<Rightarrow> store option"
  dirs :: "path set"
  conn :: "connection option"
  cur :: handle
  budget :: nat
  printed :: "string list"

datatype 'a outcome = Done 'a world | Raised error world

fun world_of :: "'a outcome \<Rightarrow> world" where
  "world_of (Done x w) = w"
| "world_of (Raised e w) = w"

fun and_then :: "'a outcome \<Rightarrow> ('a \<Rightarrow> world \<Rightarrow> 'b outcome) \<Rightarrow> 'b outcome" where
  "and_then (Done x w) f = f x w"
| "and_then (Raised e w) f = Raised e w"

text \<open>A block of statements that return nothing, run in order up to the first raise.\<close>

fun block :: "(world \<Rightarrow> unit outcome) list \<Rightarrow> world \<Rightarrow> unit outcome" where
  "block [] w = Done () w"
| "block (f # rest) w = and_then (f w) (\<lambda>_. block rest)"

text \<open>An operation on the outside world: it fails when the budget is used up.\<close>

definition io :: "error \<Rightarrow> (world \<Rightarrow> 'a outcome) \<Rightarrow> world \<Rightarrow> 'a outcome" where
  "io e f w = (if budget w = 0 then Raised e w else f (w\<lparr>budget := budget w - 1\<rparr>))"

text \<open>\<open>Path.mkdir(exist_ok=True)\<close>, without \<open>parents\<close>.\<close>

definition mkdir_exist_ok :: "path \<Rightarrow> world \<Rightarrow> unit outcome" where
  "mkdir_exist_ok p = io OSError (\<lambda>w.
     if p \<in> dirs w then Done () w
     else if fs w p \<noteq> None \<or> path_parent p \<notin> dirs w then Raised OSError w
     else Done () (w\<lparr>dirs := insert p (dirs w)\<rparr>))"

text \<open>\<open>Path.unlink(missing_ok=True)\<close>.\<close>

definition unlink_missing_ok :: "path \<Rightarrow> world \<Rightarrow> unit outcome" where
  "unlink_missing_ok p = io OSError (\<lambda>w.
     if p \<in> dirs w then Raised OSError w
     else Done () (w\<lparr>fs := (fs w)(p := None)\<rparr>))"

text \<open>\<open>aiosqlite.connect\<close>: opens the file at the path, creating an empty one.\<close>

definition connect :: "path \<Rightarrow> world \<Rightarrow> unit outcome" where
  "connect p = io OperationalError (\<lambda>w.
     if p \<in> dirs w \<or> path_parent p \<notin> dirs w then Raised OperationalError w
     else (let s = (case fs w p of None \<Rightarrow> empty_store | Some s \<Rightarrow> s)
           in Done () (w\<lparr>fs := (fs w)(p \<mapsto> s),
                conn := Some \<lparr>database = p, view = s, in_transaction = False, closed = False\<rparr>\<rparr>)))"

text \<open>\<open>self.cur = await self.conn.cursor()\<close>.\<close>

definition cursor :: "world \<Rightarrow> unit outcome" where
  "cursor = io OperationalError (\<lambda>w.
     case conn w of
       None \<Rightarrow> Raised AttributeError w
     | Some c \<Rightarrow> if closed c then Raised ProgrammingError w else Done () (w\<lparr>cur := Opened\<rparr>))"

text \<open>The state after a successful statement: the view changes, and the file with it
  unless a transaction is open.\<close>

definition commit_view :: "connection \<Rightarrow> store \<times> bool \<Rightarrow> world \<Rightarrow> world" where
  "commit_view c st w =
     (let c' = c\<lparr>view := fst st, in_transaction := snd st\<rparr>
      in w\<lparr>conn := Some c',
           fs := (if snd st then fs w else (fs w)(database c \<mapsto> fst st))\<rparr>)"

text \<open>\<open>await cur.execute(sql, parameters)\<close> for a statement that returns no rows.\<close>

definition execute :: "statement \<Rightarrow> world \<Rightarrow> unit outcome" where
  "execute stmt = io OperationalError (\<lambda>w.
     case cur w of
       Unset \<Rightarrow> Raised AttributeError w
     | Closed \<Rightarrow> Raised ProgrammingError w
     | Opened \<Rightarrow>
        (case conn w of
           None \<Rightarrow> Raised AttributeError w
         | Some c \<Rightarrow>
             if closed c then Raised ProgrammingError w
             else (case run_statement stmt (view c, in_transaction c) of
                     Inl e \<Rightarrow> Raised e w
                   | Inr st \<Rightarrow> Done () (commit_view c st w))))"

subsection \<open>init_db and count_rows\<close>

definition products_columns :: "string list" where
  "products_columns = [''product_id'', ''title'', ''image_logo'', ''product_type'',
     ''comp_systems'', ''sale_rank'', ''search_title'']"

definition changelog_columns :: "string list" where
  "changelog_columns = [''product_id'', ''product_title'', ''timestamp'', ''action'',
     ''category'', ''dl_type'', ''bonus_type'', ''property_name'', ''serialized_record'']"

definition summary_columns :: "string list" where
  "summary_columns = [''product_id'', ''product_title'', ''timestamp'', ''categories'']"

definition init_db :: "world \<Rightarrow> unit outcome" where
  "init_db = block
     [execute (CreateTable ''products'' products_columns),
      execute (CreateTable ''changelog'' changelog_columns),
      execute (CreateTable ''changelog_summary'' summary_columns),
      execute (CreateIndex ''idx_products_sale_rank'' ''products'' ''sale_rank''),
      execute (CreateIndex ''idx_changelog_timestamp'' ''changelog'' ''timestamp''),
      execute (CreateIndex ''idx_summary_timestamp'' ''changelog_summary'' ''timestamp'')]"

text \<open>\<open>SELECT COUNT(*) FROM table\<close>, and the first column of the row fetched.\<close>

definition count_rows :: "string \<Rightarrow> world \<Rightarrow> nat outcome" where
  "count_rows table_name = io OperationalError (\<lambda>w.
     case cur w of
       Unset \<Rightarrow> Raised AttributeError w
     | Closed \<Rightarrow> Raised ProgrammingError w
     | Opened \<Rightarrow>
        (case conn w of
           None \<Rightarrow> Raised AttributeError w
         | Some c \<Rightarrow>
             if closed c then Raised ProgrammingError w
             else (case map_of (tables (view c)) table_name of
                     None \<Rightarrow> Raised OperationalError w
                   | Some tb \<Rightarrow> Done (length (rows tb)) w)))"

subsection \<open>The records the module reads\<close>

text \<open>
  The classes of \<open>gogdb.core.model\<close> are not part of the module; the records have the
  fields the module reads, with the types the specification gives them. The rank of a
  product, the payloads of a change record and the bonus descriptors of a download may
  be None.
\<close>

record 'sys product =
  p_id :: int
  p_title :: string
  p_image_logo :: string
  p_type :: string
  p_comp_systems :: 'sys
  p_rank_bestselling :: "int option"

record bonus =
  bonus_type :: string

record download_record =
  dl_type :: string
  dl_new_bonus :: "bonus option"
  dl_old_bonus :: "bonus option"

record property_record =
  property_name :: string

record 'ts changerec =
  timestamp :: 'ts
  action :: string
  category :: string
  download_record :: "download_record option"
  property_record :: "property_record option"

text \<open>\<open>model.IndexChange\<close>: the fields not given to the constructor are None.\<close>

record 'ts IndexChange =
  idx_id :: int
  idx_title :: string
  idx_timestamp :: 'ts
  idx_action :: string
  idx_category :: string
  idx_record :: "'ts changerec"
  idx_dl_type :: "string option"
  idx_bonus_type :: "string option"
  idx_property_name :: "string option"

text \<open>
  What the module calls and does not define: the two normalisation functions,
  \<open>json.dumps\<close> with the encoder of \<open>gogdb.core.storage\<close> (None when it raises),
  \<open>datetime.timestamp\<close>, and the order in which a Python set of strings is iterated,
  which depends on the hash seed of the run.
\<close>

record ('sys, 'ts) externals =
  normalize_search :: "string \<Rightarrow> string"
  compress_systems :: "'sys \<Rightarrow> string"
  json_dumps :: "'ts changerec \<Rightarrow> string option"
  posix :: "'ts \<Rightarrow> real"
  set_iter :: "string set \<Rightarrow> string list"

subsection \<open>index_product\<close>

definition product_values :: "('sys, 'ts) externals \<Rightarrow> 'sys product \<Rightarrow> row" where
  "product_values E prd =
     (let sale_rank = (case p_rank_bestselling prd of Some r \<Rightarrow> r | None \<Rightarrow> 100000)
      in [SqlInt (p_id prd), SqlText (p_title prd), SqlText (p_image_logo prd),
          SqlText (p_type prd), SqlText (compress_systems E (p_comp_systems prd)),
          SqlInt sale_rank, SqlText (normalize_search E (p_title prd))])"

definition index_product :: "('sys, 'ts) externals \<Rightarrow> 'sys product \<Rightarrow> world \<Rightarrow> unit outcome" where
  "index_product E prd = execute (Insert ''products'' (product_values E prd))"

subsection \<open>index_changelog\<close>

text \<open>The first part of the loop body: the IndexChange of one change record.\<close>

definition index_change :: "'sys product \<Rightarrow> 'ts changerec \<Rightarrow> error + 'ts IndexChange" where
  "index_change prd changerec =
     (let idx_change = \<lparr>idx_id = p_id prd, idx_title = p_title prd,
            idx_timestamp = timestamp changerec, idx_action = action changerec,
            idx_category = category changerec, idx_record = changerec,
            idx_dl_type = None, idx_bonus_type = None, idx_property_name = None\<rparr>
      in if category changerec = ''download'' then
           (case download_record changerec of
              None \<Rightarrow> Inl AttributeError
            | Some d \<Rightarrow>
                (let i1 = idx_change\<lparr>idx_dl_type := Some (dl_type d)\<rparr>;
                     i2 = (case dl_new_bonus d of
                             Some b \<Rightarrow> i1\<lparr>idx_bonus_type := Some (bonus_type b)\<rparr>
                           | None \<Rightarrow> i1);
                     i3 = (case dl_old_bonus d of
                             Some b \<Rightarrow> i2\<lparr>idx_bonus_type := Some (bonus_type b)\<rparr>
                           | None \<Rightarrow> i2)
                 in Inr i3))
         else if category changerec = ''property'' then
           (case property_record changerec of
              None \<Rightarrow> Inl AttributeError
            | Some p \<Rightarrow> Inr (idx_change\<lparr>idx_property_name := Some (property_name p)\<rparr>))
         else Inr idx_change)"

definition opt_text :: "string option \<Rightarrow> sqlval" where
  "opt_text x = (case x of None \<Rightarrow> SqlNull | Some s \<Rightarrow> SqlText s)"

definition changelog_values :: "('sys, 'ts) externals \<Rightarrow> 'ts IndexChange \<Rightarrow> string \<Rightarrow> row" where
  "changelog_values E idx_change text =
     [SqlInt (idx_id idx_change), SqlText (idx_title idx_change),
      SqlReal (posix E (idx_timestamp idx_change)), SqlText (idx_action idx_change),
      SqlText (idx_category idx_change), opt_text (idx_dl_type idx_change),
      opt_text (idx_bonus_type idx_change), opt_text (idx_property_name idx_change),
      SqlText text]"

text \<open>
  \<open>summaries\<close> is a \<open>defaultdict(set)\<close>: a dictionary in insertion order.
  \<open>summaries[k].add(c)\<close> adds to the set of a key that is there and appends a new key.
\<close>

type_synonym 'ts summaries = "('ts \<times> string set) list"

fun summaries_add :: "'ts \<Rightarrow> string \<Rightarrow> 'ts summaries \<Rightarrow> 'ts summaries" where
  "summaries_add k c [] = [(k, {c})]"
| "summaries_add k c ((k', s) # kvs) =
     (if k' = k then (k', insert c s) # kvs else (k', s) # summaries_add k c kvs)"

text \<open>\<open>sep.join(xs)\<close>.\<close>

fun join :: "string \<Rightarrow> string list \<Rightarrow> string" where
  "join sep [] = []"
| "join sep [x] = x"
| "join sep (x # y # ys) = x @ sep @ join sep (y # ys)"

text \<open>The first loop: one row of \<open>changelog\<close> for each record, and the summaries.\<close>

fun index_changes :: "('sys, 'ts) externals \<Rightarrow> 'sys product \<Rightarrow> 'ts changerec list \<Rightarrow>
    'ts summaries \<Rightarrow> world \<Rightarrow> 'ts summaries outcome" where
  "index_changes E prd [] summaries w = Done summaries w"
| "index_changes E prd (changerec # changelog) summaries w =
     (case index_change prd changerec of
        Inl e \<Rightarrow> Raised e w
      | Inr idx_change \<Rightarrow>
          (case json_dumps E (idx_record idx_change) of
             None \<Rightarrow> Raised TypeError w
           | Some text \<Rightarrow>
               and_then (execute (Insert ''changelog'' (changelog_values E idx_change text)) w)
                 (\<lambda>_. index_changes E prd changelog
                    (summaries_add (timestamp changerec) (category changerec) summaries))))"

definition summary_values :: "('sys, 'ts) externals \<Rightarrow> 'sys product \<Rightarrow> 'ts \<times> string set \<Rightarrow> row" where
  "summary_values E prd item =
     (let category_str = join '','' (sort (set_iter E (snd item)))
      in [SqlInt (p_id prd), SqlText (p_title prd), SqlReal (posix E (fst item)),
          SqlText category_str])"

text \<open>The second loop: one row of \<open>changelog_summary\<close> for each item.\<close>

fun index_summaries :: "('sys, 'ts) externals \<Rightarrow> 'sys product \<Rightarrow> 'ts summaries \<Rightarrow>
    world \<Rightarrow> unit outcome" where
  "index_summaries E prd [] w = Done () w"
| "index_summaries E prd (item # items) w =
     and_then (execute (Insert ''changelog_summary'' (summary_values E prd item)) w)
       (\<lambda>_. index_summaries E prd items)"

definition index_changelog :: "('sys, 'ts) externals \<Rightarrow> 'sys product \<Rightarrow> 'ts changerec list \<Rightarrow>
    world \<Rightarrow> unit outcome" where
  "index_changelog E prd changelog w =
     and_then (index_changes E prd changelog [] w) (index_summaries E prd)"

subsection \<open>IndexDbProcessor\<close>

text \<open>The two paths of the processor. \<open>live\<close> is what \<open>db.path_indexdb()\<close> returns.\<close>

record processor =
  indexdb_path :: path
  indexdb_path_part :: path

definition init :: "path \<Rightarrow> world \<Rightarrow> processor outcome" where
  "init live w =
     (case with_name live (path_name live @ ''.part'') of
        Inl e \<Rightarrow> Raised e w
      | Inr part \<Rightarrow>
          Done \<lparr>indexdb_path = live, indexdb_path_part = part\<rparr> (w\<lparr>conn := None, cur := Unset\<rparr>))"

definition prepare :: "processor \<Rightarrow> world \<Rightarrow> unit outcome" where
  "prepare self = block
     [mkdir_exist_ok (path_parent (indexdb_path self)),
      unlink_missing_ok (indexdb_path_part self),
      connect (indexdb_path_part self),
      cursor,
      init_db,
      execute Begin,
      execute (Delete ''products''),
      execute (Delete ''changelog''),
      execute (Delete ''changelog_summary'')]"

record ('sys, 'ts) data_bundle =
  data_product :: "'sys product option"
  data_changelog :: "'ts changerec list option"

definition process :: "('sys, 'ts) externals \<Rightarrow> ('sys, 'ts) data_bundle \<Rightarrow> world \<Rightarrow> unit outcome" where
  "process E data w =
     (case data_product data of
        None \<Rightarrow> Done () w
      | Some prd \<Rightarrow>
          and_then (index_product E prd w) (\<lambda>_ w'.
            case data_changelog data of
              None \<Rightarrow> Done () w'
            | Some changelog \<Rightarrow> index_changelog E prd changelog w'))"

text \<open>\<open>str\<close> of a count, and the line that \<open>finish\<close> prints.\<close>

fun str_nat :: "nat \<Rightarrow> string" where
  "str_nat n = (if n < 10 then [char_of (48 + n)]
     else str_nat (n div 10) @ [char_of (48 + n mod 10)])"

definition print_counts :: "nat \<Rightarrow> nat \<Rightarrow> nat \<Rightarrow> world \<Rightarrow> unit outcome" where
  "print_counts n1 n2 n3 w = Done () (w\<lparr>printed := printed w @
     [''Indexed '' @ str_nat n1 @ '' products, '' @ str_nat n2 @
      '' changelog entries, '' @ str_nat n3 @ '' changelog summaries'']\<rparr>)"

definition cursor_close :: "world \<Rightarrow> unit outcome" where
  "cursor_close = io OperationalError (\<lambda>w.
     case cur w of
       Unset \<Rightarrow> Raised AttributeError w
     | _ \<Rightarrow> Done () (w\<lparr>cur := Closed\<rparr>))"

text \<open>\<open>conn.commit()\<close>: writes an open transaction to the file.\<close>

definition conn_commit :: "world \<Rightarrow> unit outcome" where
  "conn_commit = io OperationalError (\<lambda>w.
     case conn w of
       None \<Rightarrow> Raised AttributeError w
     | Some c \<Rightarrow>
         if closed c then Raised ProgrammingError w
         else if in_transaction c then Done () (commit_view c (view c, False) w)
         else Done () w)"

definition conn_close :: "world \<Rightarrow> unit outcome" where
  "conn_close = io OperationalError (\<lambda>w.
     case conn w of
       None \<Rightarrow> Raised AttributeError w
     | Some c \<Rightarrow> Done () (w\<lparr>conn := Some (c\<lparr>closed := True, in_transaction := False\<rparr>)\<rparr>))"

text \<open>\<open>os.replace(src, dst)\<close>: the file at \<open>src\<close> becomes the file at \<open>dst\<close>, in one step.\<close>

definition os_replace :: "path \<Rightarrow> path \<Rightarrow> world \<Rightarrow> unit outcome" where
  "os_replace src dst = io OSError (\<lambda>w.
     if fs w src = None \<or> dst \<in> dirs w then Raised OSError w
     else Done () (w\<lparr>fs := (fs w)(src := None, dst := fs w src)\<rparr>))"

definition finish :: "processor \<Rightarrow> world \<Rightarrow> unit outcome" where
  "finish self w =
     and_then (execute End w) (\<lambda>_ w.
     and_then (count_rows ''products'' w) (\<lambda>n1 w.
     and_then (count_rows ''changelog'' w) (\<lambda>n2 w.
     and_then (count_rows ''changelog_summary'' w) (\<lambda>n3.
       block
         [print_counts n1 n2 n3,
          cursor_close,
          conn_commit,
          conn_close,
          os_replace (indexdb_path_part self) (indexdb_path self)]))))"

subsection \<open>A rebuild\<close>

text \<open>
  Modelled from the spec: the driver that feeds the processor is not part of the module.
  It constructs the processor, calls \<open>prepare\<close>, then \<open>process\<close> once for each bundle
  in the order received, then \<open>finish\<close>.
\<close>

fun process_all :: "('sys, 'ts) externals \<Rightarrow> ('sys, 'ts) data_bundle list \<Rightarrow> world \<Rightarrow> unit outcome" where
  "process_all E [] w = Done () w"
| "process_all E (data # rest) w = and_then (process E data w) (\<lambda>_. process_all E rest)"

definition rebuild :: "('sys, 'ts) externals \<Rightarrow> path \<Rightarrow> ('sys, 'ts) data_bundle list \<Rightarrow>
    world \<Rightarrow> unit outcome" where
  "rebuild E live bundles w =
     and_then (init live w) (\<lambda>self w.
     and_then (prepare self w) (\<lambda>_ w.
     and_then (process_all E bundles w) (\<lambda>_. finish self)))"

section \<open>Reading the store, and what the specification says\<close>

text \<open>The rows of a table as the connection sees them (none when there is no table).\<close>

definition table_rows :: "string \<Rightarrow> world \<Rightarrow> row list" where
  "table_rows n w = (case conn w of None \<Rightarrow> []
     | Some c \<Rightarrow> (case map_of (tables (view c)) n of None \<Rightarrow> [] | Some tb \<Rightarrow> rows tb))"

text \<open>The value of a named column of a row, for the columns of a table.\<close>

definition column :: "string list \<Rightarrow> string \<Rightarrow> row \<Rightarrow> sqlval option" where
  "column cols name r = map_of (zip cols r) name"

fun is_done :: "'a outcome \<Rightarrow> bool" where
  "is_done (Done x w) = True"
| "is_done (Raised e w) = False"

text \<open>The rows that a table has in \<open>w'\<close> after those it had in \<open>w\<close>.\<close>

definition new_rows :: "string \<Rightarrow> world \<Rightarrow> world \<Rightarrow> row list" where
  "new_rows n w w' = drop (length (table_rows n w)) (table_rows n w')"

text \<open>A row is the row of a change record: the record has an IndexChange and a
  serialization, and the row holds their values.\<close>

definition indexed_as :: "('sys, 'ts) externals \<Rightarrow> 'sys product \<Rightarrow> 'ts changerec \<Rightarrow> row \<Rightarrow> bool" where
  "indexed_as E prd changerec r =
     (case index_change prd changerec of
        Inl e \<Rightarrow> False
      | Inr idx_change \<Rightarrow>
          (case json_dumps E changerec of
             None \<Rightarrow> False
           | Some text \<Rightarrow> r = changelog_values E idx_change text))"

text \<open>The dictionary \<open>summaries\<close> after the first loop over a changelog.\<close>

definition summarize :: "'ts changerec list \<Rightarrow> 'ts summaries \<Rightarrow> 'ts summaries" where
  "summarize changelog summaries =
     foldl (\<lambda>s changerec. summaries_add (timestamp changerec) (category changerec) s) summaries changelog"

text \<open>Iterating a finite Python set gives each of its elements once, in some order.\<close>

definition valid_iter :: "(string set \<Rightarrow> string list) \<Rightarrow> bool" where
  "valid_iter f = (\<forall>S. finite S \<longrightarrow> set (f S) = S \<and> distinct (f S))"

text \<open>The specification's words: the category tags of the records that bear a timestamp.\<close>

definition categories_at :: "'ts changerec set \<Rightarrow> 'ts \<Rightarrow> string set" where
  "categories_at recs k = category ` {r \<in> recs. timestamp r = k}"

text \<open>The set that a dictionary of sets holds at a key, empty when the key is missing.\<close>

definition set_at :: "'ts summaries \<Rightarrow> 'ts \<Rightarrow> string set" where
  "set_at acc k = (case map_of acc k of None \<Rightarrow> {} | Some S \<Rightarrow> S)"

subsection \<open>Example inputs\<close>

text \<open>A connection inside the transaction of a rebuild, with the three tables empty, a
  product without a rank, and three change records.\<close>

definition ex_store :: store where
  "ex_store = \<lparr>tables = [(''products'', \<lparr>columns = products_columns, rows = []\<rparr>),
       (''changelog'', \<lparr>columns = changelog_columns, rows = []\<rparr>),
       (''changelog_summary'', \<lparr>columns = summary_columns, rows = []\<rparr>)],
     indexes = []\<rparr>"

definition ex_world :: world where
  "ex_world = \<lparr>fs = (\<lambda>p. None), dirs = {},
     conn = Some \<lparr>database = [''index.sqlite3.part''], view = ex_store,
                  in_transaction = True, closed = False\<rparr>,
     cur = Opened, budget = 10, printed = []\<rparr>"

definition ex_externals :: "(string list, int) externals" where
  "ex_externals = \<lparr>normalize_search = (\<lambda>s. s), compress_systems = concat,
     json_dumps = (\<lambda>r. Some (action r)), posix = real_of_int, set_iter = sorted_list_of_set\<rparr>"

definition ex_product :: "string list product" where
  "ex_product = \<lparr>p_id = 7, p_title = ''Foo Bar'', p_image_logo = ''logo'', p_type = ''game'',
     p_comp_systems = [''w'', ''l''], p_rank_bestselling = None\<rparr>"

definition ex_download :: "int changerec" where
  "ex_download = \<lparr>timestamp = 5, action = ''add'', category = ''download'',
     download_record = Some \<lparr>dl_type = ''bonus'',
       dl_new_bonus = Some \<lparr>bonus_type = ''manual''\<rparr>,
       dl_old_bonus = Some \<lparr>bonus_type = ''wallpaper''\<rparr>\<rparr>,
     property_record = None\<rparr>"

definition ex_property :: "int changerec" where
  "ex_property = \<lparr>timestamp = 5, action = ''change'', category = ''property'',
     download_record = None, property_record = Some \<lparr>property_name = ''title''\<rparr>\<rparr>"

definition ex_build :: "int changerec" where
  "ex_build = \<lparr>timestamp = 9, action = ''add'', category = ''build'',
     download_record = None, property_record = None\<rparr>"

text \<open>The specification's words: the summary row of a timestamp holds the sorted,
  deduplicated, comma-joined categories of the records that bear it.\<close>

definition spec_summary_row :: "('sys, 'ts) externals \<Rightarrow> 'sys product \<Rightarrow> 'ts changerec set \<Rightarrow> 'ts \<Rightarrow> row" where
  "spec_summary_row E prd recs k =
     [SqlInt (p_id prd), SqlText (p_title prd), SqlReal (posix E k),
      SqlText (join '','' (sorted_list_of_set (categories_at recs k)))]"

fun error_of :: "'a outcome \<Rightarrow> error option" where
  "error_of (Done x w) = None"
| "error_of (Raised e w) = Some e"

definition ex_fresh :: world where
  "ex_fresh = \<lparr>fs = (\<lambda>p. None), dirs = {},
     conn = Some \<lparr>database = [''index.sqlite3.part''], view = empty_store,
                  in_transaction = False, closed = False\<rparr>,
     cur = Opened, budget = 20, printed = []\<rparr>"

text \<open>The schema that the six statements of \<open>init_db\<close> describe.\<close>

definition schema :: store where
  "schema = \<lparr>tables = [(''products'', \<lparr>columns = products_columns, rows = []\<rparr>),
       (''changelog'', \<lparr>columns = changelog_columns, rows = []\<rparr>),
       (''changelog_summary'', \<lparr>columns = summary_columns, rows = []\<rparr>)],
     indexes = [(''idx_products_sale_rank'', ''products'', ''sale_rank''),
       (''idx_changelog_timestamp'', ''changelog'', ''timestamp''),
       (''idx_summary_timestamp'', ''changelog_summary'', ''timestamp'')]\<rparr>"

text \<open>The connection, when there is one, is on the file at a path.\<close>

definition on_path :: "path \<Rightarrow> world \<Rightarrow> bool" where
  "on_path part w = (case conn w of None \<Rightarrow> True | Some c \<Rightarrow> database c = part)"

text \<open>An operation that keeps the connection on a path and writes no other file.\<close>

definition confined :: "path \<Rightarrow> (world \<Rightarrow> 'a outcome) \<Rightarrow> bool" where
  "confined part f = (\<forall>w. on_path part w \<longrightarrow>
     on_path part (world_of (f w)) \<and> (\<forall>q. q \<noteq> part \<longrightarrow> fs (world_of (f w)) q = fs w q))"

text \<open>An operation that, when it raises, has left the file at a path as it was.\<close>

definition safe :: "path \<Rightarrow> path \<Rightarrow> (world \<Rightarrow> 'a outcome) \<Rightarrow> bool" where
  "safe part live f = (\<forall>w. on_path part w \<longrightarrow>
     (case f w of Done v w' \<Rightarrow> True | Raised e w' \<Rightarrow> fs w' live = fs w live))"

definition ex_live :: path where
  "ex_live = [''data'', ''index.sqlite3'']"

text \<open>A world in which an index has been published before, and whose storage fails at
  the twentieth operation.\<close>

definition ex_published :: world where
  "ex_published = \<lparr>fs = (\<lambda>p. if p = ex_live then Some schema else None), dirs = {[''data'']},
     conn = None, cur = Unset, budget = 19, printed = []\<rparr>"

definition ex_bundles :: "(string list, int) data_bundle list" where
  "ex_bundles = [\<lparr>data_product = Some ex_product,
                   data_changelog = Some [ex_property, ex_build, ex_download]\<rparr>,
                 \<lparr>data_product = None, data_changelog = None\<rparr>]"

text \<open>The rows of a table in a database file (none when there is no file or no table).\<close>

definition file_rows :: "string \<Rightarrow> store option \<Rightarrow> row list" where
  "file_rows n f = (case f of None \<Rightarrow> []
     | Some s \<Rightarrow> (case map_of (tables s) n of None \<Rightarrow> [] | Some tb \<Rightarrow> rows tb))"

text \<open>The row of a change record, when it has one.\<close>

definition changelog_row :: "('sys, 'ts) externals \<Rightarrow> 'sys product \<Rightarrow> 'ts changerec \<Rightarrow> row" where
  "changelog_row E prd changerec =
     (case index_change prd changerec of
        Inl e \<Rightarrow> []
      | Inr idx_change \<Rightarrow>
          (case json_dumps E changerec of
             None \<Rightarrow> []
           | Some js \<Rightarrow> changelog_values E idx_change js))"

text \<open>The specification's words: the rows that a bundle gives to each table: none
  without a product, the row of the product, and with a changelog one row for each
  record and one summary row for each key of the dictionary of summaries.\<close>

definition bundle_rows :: "('sys, 'ts) externals \<Rightarrow> ('sys, 'ts) data_bundle \<Rightarrow> string \<Rightarrow> row list" where
  "bundle_rows E data n =
     (case data_product data of
        None \<Rightarrow> []
      | Some prd \<Rightarrow>
          if n = ''products'' then [product_values E prd]
          else (case data_changelog data of
                  None \<Rightarrow> []
                | Some cl \<Rightarrow>
                    if n = ''changelog'' then map (changelog_row E prd) cl
                    else if n = ''changelog_summary''
                    then map (spec_summary_row E prd (set cl)) (map fst (summarize cl []))
                    else []))"

definition expected_rows :: "('sys, 'ts) externals \<Rightarrow> ('sys, 'ts) data_bundle list \<Rightarrow> string \<Rightarrow> row list" where
  "expected_rows E bundles n = concat (map (\<lambda>data. bundle_rows E data n) bundles)"

text \<open>The connection is on the file at a path, sees a store, and the file holds it.\<close>

definition staged :: "path \<Rightarrow> store \<Rightarrow> world \<Rightarrow> bool" where
  "staged part V w = ((case conn w of None \<Rightarrow> False | Some c \<Rightarrow> database c = part \<and> view c = V) \<and>
     fs w part = Some V)"

text \<open>The externals of the examples in a run whose sets iterate in another order.\<close>

definition ex_externals' :: "(string list, int) externals" where
  "ex_externals' = ex_externals\<lparr>set_iter := (\<lambda>S. rev (sorted_list_of_set S))\<rparr>"

text \<open>The number of columns of a table of a store.\<close>

definition width :: "store \<Rightarrow> string \<Rightarrow> nat option" where
  "width s n = map_option (\<lambda>tb. length (columns tb)) (map_of (tables s) n)"

text \<open>A cursor on which the next \<open>k\<close> inserts of rows of the right widths go through: it
  is open on an open connection whose store has the three tables, and the storage lets
  \<open>k\<close> operations through.\<close>

definition ready :: "nat \<Rightarrow> world \<Rightarrow> bool" where
  "ready k w = (k \<le> budget w \<and> cur w = Opened \<and>
     (case conn w of
        None \<Rightarrow> False
      | Some c \<Rightarrow> \<not> closed c \<and> width (view c) ''products'' = Some 7 \<and>
          width (view c) ''changelog'' = Some 9 \<and>
          width (view c) ''changelog_summary'' = Some 4))"

text \<open>A change record that can be indexed: its payload is there and it serializes.\<close>

definition indexable :: "('sys, 'ts) externals \<Rightarrow> 'sys product \<Rightarrow> 'ts changerec \<Rightarrow> bool" where
  "indexable E prd changerec =
     (case index_change prd changerec of
        Inl e \<Rightarrow> False
      | Inr idx_change \<Rightarrow> json_dumps E changerec \<noteq> None)"

text \<open>A world in which an earlier rebuild has left a staging file behind, with its
  tables and a row in \<open>products\<close>.\<close>

definition ex_stale :: world where
  "ex_stale = \<lparr>fs = (\<lambda>p. if p = [''data'', ''index.sqlite3.part'']
       then Some (schema\<lparr>tables := put_table ''products''
              \<lparr>columns = products_columns, rows = [product_values ex_externals ex_product]\<rparr>
              (tables schema)\<rparr>)
       else None),
     dirs = {[''data'']}, conn = None, cur = Unset, budget = 30, printed = []\<rparr>"

section \<open>Properties of the model\<close>

lemma is_done_unit: "is_done (x :: unit outcome) \<Longrightarrow> x = Done () (world_of x)"
  by (cases x) auto

lemma map_of_put_table: "map_of (put_table n t kvs) = (map_of kvs)(n \<mapsto> t)"
  by (induction kvs) (auto simp: fun_eq_iff)

lemma io_Done:
  "io e f w = Done x w' \<Longrightarrow> budget w \<noteq> 0 \<and> f (w\<lparr>budget := budget w - 1\<rparr>) = Done x w'"
  by (auto simp: io_def split: if_splits)

lemma execute_Done:
  assumes "execute stmt w = Done u w'"
  shows "\<exists>c st. budget w \<noteq> 0 \<and> cur w = Opened \<and> conn w = Some c \<and> \<not> closed c \<and>
           run_statement stmt (view c, in_transaction c) = Inr st \<and>
           w' = commit_view c st (w\<lparr>budget := budget w - 1\<rparr>)"
  using assms unfolding execute_def
  by (auto dest!: io_Done split: handle.splits option.splits if_splits sum.splits)

lemma execute_Insert_rows:
  assumes "execute (Insert n r) w = Done u w'"
  shows "table_rows n' w' = (if n' = n then table_rows n w @ [r] else table_rows n' w)"
proof -
  from execute_Done [OF assms] obtain c st where
    c: "conn w = Some c" and
    st: "run_statement (Insert n r) (view c, in_transaction c) = Inr st" and
    w': "w' = commit_view c st (w\<lparr>budget := budget w - 1\<rparr>)" by blast
  from st obtain tb where tb: "map_of (tables (view c)) n = Some tb"
    and st': "st = ((view c)\<lparr>tables := put_table n (tb\<lparr>rows := rows tb @ [r]\<rparr>) (tables (view c))\<rparr>, in_transaction c)"
    by (auto split: option.splits if_splits)
  show ?thesis
    by (simp add: w' st' c tb table_rows_def commit_view_def Let_def map_of_put_table)
qed

lemma index_product_rows:
  assumes "index_product E prd w = Done u w'"
  shows "table_rows n w' = (if n = ''products'' then table_rows n w @ [product_values E prd] else table_rows n w)"
  using execute_Insert_rows [OF assms [unfolded index_product_def], of n] by simp

lemma index_change_record: "index_change prd r = Inr idx \<Longrightarrow> idx_record idx = r"
  by (auto simp: index_change_def Let_def split: if_splits option.splits)

lemma and_then_Done:
  "and_then x f = Done y w' \<Longrightarrow> \<exists>v w1. x = Done v w1 \<and> f v w1 = Done y w'"
  by (cases x) auto

lemma index_changes_Done:
  "index_changes E prd cl acc w = Done acc' w' \<Longrightarrow>
     acc' = summarize cl acc \<and>
     (\<exists>added. list_all2 (indexed_as E prd) cl added \<and>
        (\<forall>n. table_rows n w' = (if n = ''changelog'' then table_rows n w @ added else table_rows n w)))"
proof (induction cl arbitrary: acc w)
  case Nil
  then show ?case by (simp add: summarize_def)
next
  case (Cons r cl)
  from Cons.prems obtain idx js u w1 where
    idx: "index_change prd r = Inr idx" and
    js: "json_dumps E (idx_record idx) = Some js" and
    ex: "execute (Insert ''changelog'' (changelog_values E idx js)) w = Done u w1" and
    rest: "index_changes E prd cl (summaries_add (timestamp r) (category r) acc) w1 = Done acc' w'"
    by (auto split: sum.splits option.splits dest!: and_then_Done)
  from Cons.IH [OF rest] obtain added where
    s: "acc' = summarize cl (summaries_add (timestamp r) (category r) acc)" and
    added: "list_all2 (indexed_as E prd) cl added" and
    rows: "\<And>n. table_rows n w' = (if n = ''changelog'' then table_rows n w1 @ added else table_rows n w1)"
    by blast
  have r: "indexed_as E prd r (changelog_values E idx js)"
    using idx js index_change_record [OF idx] by (simp add: indexed_as_def)
  have "list_all2 (indexed_as E prd) (r # cl) (changelog_values E idx js # added)"
    using r added by simp
  moreover have "\<forall>n. table_rows n w' =
      (if n = ''changelog'' then table_rows n w @ (changelog_values E idx js # added) else table_rows n w)"
    using rows execute_Insert_rows [OF ex] by simp
  moreover have "acc' = summarize (r # cl) acc"
    using s by (simp add: summarize_def)
  ultimately show ?case by blast
qed

lemma index_summaries_Done:
  "index_summaries E prd items w = Done u w' \<Longrightarrow>
     table_rows n w' = (if n = ''changelog_summary''
        then table_rows n w @ map (summary_values E prd) items else table_rows n w)"
proof (induction items arbitrary: w)
  case Nil
  then show ?case by simp
next
  case (Cons item items)
  from Cons.prems obtain v w1 where
    ex: "execute (Insert ''changelog_summary'' (summary_values E prd item)) w = Done v w1" and
    rest: "index_summaries E prd items w1 = Done u w'"
    by (auto dest!: and_then_Done)
  show ?case
    using Cons.IH [OF rest] execute_Insert_rows [OF ex, of n] by (auto split: if_splits)
qed

lemma index_changelog_Done:
  assumes "index_changelog E prd cl w = Done u w'"
  shows "\<exists>added. list_all2 (indexed_as E prd) cl added \<and>
      table_rows ''changelog'' w' = table_rows ''changelog'' w @ added \<and>
      table_rows ''changelog_summary'' w' =
        table_rows ''changelog_summary'' w @ map (summary_values E prd) (summarize cl []) \<and>
      table_rows ''products'' w' = table_rows ''products'' w"
proof -
  from assms obtain acc w1 where
    a: "index_changes E prd cl [] w = Done acc w1" and
    b: "index_summaries E prd acc w1 = Done u w'"
    by (auto simp: index_changelog_def dest!: and_then_Done)
  from index_changes_Done [OF a] obtain added where
    s: "acc = summarize cl []" and added: "list_all2 (indexed_as E prd) cl added" and
    rows: "\<And>n. table_rows n w1 = (if n = ''changelog'' then table_rows n w @ added else table_rows n w)"
    by blast
  note fin = index_summaries_Done [OF b]
  have "table_rows ''changelog'' w' = table_rows ''changelog'' w @ added"
    using fin [of "''changelog''"] rows [of "''changelog''"] by simp
  moreover have "table_rows ''changelog_summary'' w' =
        table_rows ''changelog_summary'' w @ map (summary_values E prd) (summarize cl [])"
    using fin [of "''changelog_summary''"] rows [of "''changelog_summary''"] s by simp
  moreover have "table_rows ''products'' w' = table_rows ''products'' w"
    using fin [of "''products''"] rows [of "''products''"] by simp
  ultimately show ?thesis using added by blast
qed

lemma summaries_add_keys:
  "map fst (summaries_add k c acc) = (if k \<in> set (map fst acc) then map fst acc else map fst acc @ [k])"
proof (induction acc)
  case Nil
  then show ?case by simp
next
  case (Cons kv acc)
  obtain k' s where kv: "kv = (k', s)" by (cases kv)
  show ?case
  proof (cases "k' = k")
    case True
    then show ?thesis by (simp add: kv)
  next
    case False
    then show ?thesis using Cons.IH by (auto simp: kv)
  qed
qed

lemma summaries_add_key_set:
  "fst ` set (summaries_add k c acc) = insert k (fst ` set acc)"
  using arg_cong [OF summaries_add_keys [of k c acc], of set] by (auto split: if_splits)

lemma summaries_add_map_of:
  "map_of (summaries_add k c acc) =
     (map_of acc)(k \<mapsto> insert c (case map_of acc k of None \<Rightarrow> {} | Some S \<Rightarrow> S))"
  by (induction acc) (auto simp: fun_eq_iff)

lemma summarize_Cons:
  "summarize (r # cl) acc = summarize cl (summaries_add (timestamp r) (category r) acc)"
  by (simp add: summarize_def)

lemma summarize_Nil: "summarize [] acc = acc"
  by (simp add: summarize_def)

lemma summarize_distinct:
  "distinct (map fst acc) \<Longrightarrow> distinct (map fst (summarize cl acc))"
  by (induction cl arbitrary: acc) (auto simp: summarize_Nil summarize_Cons summaries_add_keys)

lemma summarize_keys:
  "set (map fst (summarize cl acc)) = set (map fst acc) \<union> timestamp ` set cl"
  by (induction cl arbitrary: acc) (simp_all add: summarize_Nil summarize_Cons summaries_add_key_set)

lemma set_at_add:
  "set_at (summaries_add k c acc) k' = (if k' = k then insert c (set_at acc k) else set_at acc k')"
  by (simp add: set_at_def summaries_add_map_of)

lemma summarize_set_at:
  "set_at (summarize cl acc) k = set_at acc k \<union> categories_at (set cl) k"
proof (induction cl arbitrary: acc)
  case Nil
  then show ?case by (simp add: summarize_Nil categories_at_def)
next
  case (Cons r cl)
  show ?case
    by (auto simp: summarize_Cons Cons.IH set_at_add categories_at_def)
qed

lemma summarize_items:
  assumes "(k, S) \<in> set (summarize cl [])"
  shows "S = categories_at (set cl) k"
proof -
  have "distinct (map fst (summarize cl []))" by (rule summarize_distinct) simp
  then have "map_of (summarize cl []) k = Some S" using assms by simp
  then have "set_at (summarize cl []) k = S" by (simp add: set_at_def)
  moreover have "set_at (summarize cl []) k = set_at [] k \<union> categories_at (set cl) k"
    by (rule summarize_set_at)
  moreover have "set_at ([] :: 'a summaries) k = {}" by (simp add: set_at_def)
  ultimately show ?thesis by simp
qed

lemma summarize_eq:
  "summarize cl [] = map (\<lambda>k. (k, categories_at (set cl) k)) (map fst (summarize cl []))"
proof -
  have "\<forall>x \<in> set (summarize cl []). x = (fst x, categories_at (set cl) (fst x))"
    using summarize_items [of _ _ cl] by (metis prod.collapse)
  then have "map (\<lambda>x. (fst x, categories_at (set cl) (fst x))) (summarize cl []) = summarize cl []"
    by (simp add: map_idI)
  then show ?thesis by (simp add: comp_def)
qed

lemma finite_categories_at: "finite (categories_at (set cl) k)"
  by (simp add: categories_at_def)

lemma sort_valid_iter:
  assumes "valid_iter f" "finite S"
  shows "sort (f S) = sorted_list_of_set S"
proof -
  have "set (f S) = S" "distinct (f S)" using assms by (auto simp: valid_iter_def)
  then show ?thesis
    by (metis distinct_sort set_sort sorted_sort sorted_distinct_set_unique
          sorted_list_of_set.distinct_sorted_key_list_of_set
          sorted_list_of_set.set_sorted_key_list_of_set
          sorted_list_of_set.sorted_sorted_key_list_of_set assms(2))
qed

lemma table_rows_new_rows:
  "table_rows n w' = table_rows n w @ added \<Longrightarrow> new_rows n w w' = added"
  by (simp add: new_rows_def)

lemma changelog_rows_Done:
  assumes "index_changelog E prd cl w = Done u w'"
  shows "list_all2 (indexed_as E prd) cl (new_rows ''changelog'' w w')"
    and "new_rows ''changelog_summary'' w w' = map (summary_values E prd) (summarize cl [])"
    and "table_rows ''changelog'' w' = table_rows ''changelog'' w @ new_rows ''changelog'' w w'"
    and "table_rows ''changelog_summary'' w' =
           table_rows ''changelog_summary'' w @ new_rows ''changelog_summary'' w w'"
  using index_changelog_Done [OF assms] by (auto simp: new_rows_def)

lemma indexed_asD:
  "indexed_as E prd r x \<Longrightarrow>
     \<exists>idx js. index_change prd r = Inr idx \<and> json_dumps E r = Some js \<and> x = changelog_values E idx js"
  by (auto simp: indexed_as_def split: sum.splits option.splits)

lemma index_change_common:
  "index_change prd r = Inr idx \<Longrightarrow>
     idx_id idx = p_id prd \<and> idx_title idx = p_title prd \<and> idx_timestamp idx = timestamp r \<and>
     idx_action idx = action r \<and> idx_category idx = category r"
  by (auto simp: index_change_def Let_def split: if_splits option.splits)

lemma index_change_download:
  "index_change prd r = Inr idx \<Longrightarrow> category r = ''download'' \<Longrightarrow>
     \<exists>d. download_record r = Some d \<and> idx_dl_type idx = Some (dl_type d) \<and>
       idx_property_name idx = None \<and>
       idx_bonus_type idx = (case dl_old_bonus d of Some b \<Rightarrow> Some (bonus_type b)
          | None \<Rightarrow> (case dl_new_bonus d of Some b \<Rightarrow> Some (bonus_type b) | None \<Rightarrow> None))"
  by (auto simp: index_change_def Let_def split: if_splits option.splits)


lemma changelog_values_columns:
  "column changelog_columns ''product_id'' (changelog_values E idx js) = Some (SqlInt (idx_id idx))"
  "column changelog_columns ''product_title'' (changelog_values E idx js) = Some (SqlText (idx_title idx))"
  "column changelog_columns ''timestamp'' (changelog_values E idx js) = Some (SqlReal (posix E (idx_timestamp idx)))"
  "column changelog_columns ''action'' (changelog_values E idx js) = Some (SqlText (idx_action idx))"
  "column changelog_columns ''category'' (changelog_values E idx js) = Some (SqlText (idx_category idx))"
  "column changelog_columns ''dl_type'' (changelog_values E idx js) = Some (opt_text (idx_dl_type idx))"
  "column changelog_columns ''bonus_type'' (changelog_values E idx js) = Some (opt_text (idx_bonus_type idx))"
  "column changelog_columns ''property_name'' (changelog_values E idx js) = Some (opt_text (idx_property_name idx))"
  "column changelog_columns ''serialized_record'' (changelog_values E idx js) = Some (SqlText js)"
  by (simp_all add: column_def changelog_columns_def changelog_values_def)

lemma changelog_row_at:
  assumes "index_changelog E prd cl w = Done u w'" "i < length cl"
  shows "\<exists>idx js. index_change prd (cl ! i) = Inr idx \<and> json_dumps E (cl ! i) = Some js \<and>
           i < length (new_rows ''changelog'' w w') \<and>
           new_rows ''changelog'' w w' ! i = changelog_values E idx js"
proof -
  note a = changelog_rows_Done(1) [OF assms(1)]
  have "length (new_rows ''changelog'' w w') = length cl"
    using a by (simp add: list_all2_lengthD)
  moreover have "indexed_as E prd (cl ! i) (new_rows ''changelog'' w w' ! i)"
    using a assms(2) by (simp add: list_all2_nthD)
  ultimately show ?thesis using indexed_asD assms(2) by fastforce
qed

lemma valid_iter_sorted_list_of_set: "valid_iter sorted_list_of_set"
  by (simp add: valid_iter_def)

lemma summary_values_spec:
  assumes "valid_iter (set_iter E)"
  shows "summary_values E prd (k, categories_at (set cl) k) = spec_summary_row E prd (set cl) k"
  by (simp add: summary_values_def spec_summary_row_def
        sort_valid_iter [OF assms finite_categories_at])

lemma summary_rows_spec:
  assumes "valid_iter (set_iter E)"
  shows "map (summary_values E prd) (summarize cl []) =
           map (spec_summary_row E prd (set cl)) (map fst (summarize cl []))"
proof -
  have "map (summary_values E prd) (summarize cl []) =
      map (summary_values E prd) (map (\<lambda>k. (k, categories_at (set cl) k)) (map fst (summarize cl [])))"
    using summarize_eq [of cl] by simp
  also have "\<dots> = map (spec_summary_row E prd (set cl)) (map fst (summarize cl []))"
    by (simp add: comp_def summary_values_spec [OF assms])
  finally show ?thesis .
qed

lemma summary_keys:
  "distinct (map fst (summarize cl []))" "set (map fst (summarize cl [])) = timestamp ` set cl"
  using summarize_distinct [of "[]" cl] summarize_keys [of cl "[]"] by simp_all

lemma index_changelog_Nil: "index_changelog E prd [] w = Done () w"
  by (simp add: index_changelog_def)

lemma summary_rows_set:
  assumes "index_changelog E prd cl w = Done u w'" "valid_iter (set_iter E)"
  shows "set (new_rows ''changelog_summary'' w w') =
           spec_summary_row E prd (set cl) ` timestamp ` set cl"
proof -
  have "new_rows ''changelog_summary'' w w' =
      map (spec_summary_row E prd (set cl)) (map fst (summarize cl []))"
    using changelog_rows_Done(2) [OF assms(1)] summary_rows_spec [OF assms(2)] by simp
  then have "set (new_rows ''changelog_summary'' w w') =
      spec_summary_row E prd (set cl) ` set (map fst (summarize cl []))"
    by (metis set_map)
  then show ?thesis by (simp only: summary_keys(2))
qed



lemma execute_ready:
  assumes "budget w \<noteq> 0" "cur w = Opened" "conn w = Some c" "\<not> closed c"
  shows "execute stmt w =
     (case run_statement stmt (view c, in_transaction c) of
        Inl e \<Rightarrow> Raised e (w\<lparr>budget := budget w - 1\<rparr>)
      | Inr st \<Rightarrow> Done () (commit_view c st (w\<lparr>budget := budget w - 1\<rparr>)))"
  using assms by (simp add: execute_def io_def split: sum.splits)

lemma process_no_product:
  "process E \<lparr>data_product = None, data_changelog = cl\<rparr> w = Done () w"
  by (simp add: process_def)

lemma process_no_changelog:
  "process E \<lparr>data_product = Some prd, data_changelog = None\<rparr> w = index_product E prd w"
  by (cases "index_product E prd w") (simp_all add: process_def)

lemma process_both:
  "process E \<lparr>data_product = Some prd, data_changelog = Some cl\<rparr> w =
     and_then (index_product E prd w) (\<lambda>_. index_changelog E prd cl)"
  by (simp add: process_def)

lemma index_product_ready:
  assumes "budget w \<noteq> 0" "cur w = Opened" "conn w = Some c" "\<not> closed c"
    "map_of (tables (view c)) ''products'' = Some tb" "length (columns tb) = 7"
  shows "is_done (index_product E prd w)"
  using assms
  by (simp add: index_product_def execute_ready [OF assms(1-4)] product_values_def)

lemma init_db_on_empty:
  assumes "cur w = Opened" "conn w = Some c" "\<not> closed c" "view c = empty_store" "6 \<le> budget w"
  shows "\<exists>w' c'. init_db w = Done () w' \<and> conn w' = Some c' \<and> view c' = schema"
  using assms
  by (simp add: init_db_def execute_def io_def commit_view_def empty_store_def schema_def Let_def
        products_columns_def changelog_columns_def summary_columns_def)

lemma init_db_on_existing:
  assumes "cur w = Opened" "conn w = Some c" "\<not> closed c"
    "map_of (tables (view c)) ''products'' \<noteq> None" "budget w \<noteq> 0"
  shows "\<exists>w'. init_db w = Raised OperationalError w' \<and> conn w' = conn w \<and> fs w' = fs w"
  using assms
  by (simp add: init_db_def execute_def io_def)

lemma confinedI:
  assumes "\<And>w. on_path part w \<Longrightarrow> on_path part (world_of (f w))"
    and "\<And>w q. on_path part w \<Longrightarrow> q \<noteq> part \<Longrightarrow> fs (world_of (f w)) q = fs w q"
  shows "confined part f"
  using assms by (simp add: confined_def)

lemma confinedD:
  assumes "confined part f" "on_path part w"
  shows "on_path part (world_of (f w))" "q \<noteq> part \<Longrightarrow> fs (world_of (f w)) q = fs w q"
  using assms by (simp_all add: confined_def)

lemma on_path_budget [simp]: "on_path part (w\<lparr>budget := b\<rparr>) = on_path part w"
  by (simp add: on_path_def)

lemma confined_io:
  assumes "confined part f"
  shows "confined part (io e f)"
proof (rule confinedI)
  fix w assume w: "on_path part w"
  then have w': "on_path part (w\<lparr>budget := budget w - 1\<rparr>)" by simp
  show "on_path part (world_of (io e f w))"
    using w confinedD(1) [OF assms w'] by (simp add: io_def)
  fix q assume "q \<noteq> part"
  then show "fs (world_of (io e f w)) q = fs w q"
    using confinedD(2) [OF assms w', of q] by (simp add: io_def)
qed

lemma confined_and_then:
  assumes "confined part g" and "\<And>v. confined part (f v)"
  shows "confined part (\<lambda>w. and_then (g w) f)"
proof (rule confinedI)
  fix w assume w: "on_path part w"
  note g = confinedD [OF assms(1) w]
  show "on_path part (world_of (and_then (g w) f))"
  proof (cases "g w")
    case (Done v w1)
    then show ?thesis using g(1) confinedD(1) [OF assms(2), of w1 v] by simp
  next
    case (Raised e w1)
    then show ?thesis using g(1) by simp
  qed
  fix q assume q: "q \<noteq> part"
  show "fs (world_of (and_then (g w) f)) q = fs w q"
  proof (cases "g w")
    case (Done v w1)
    then show ?thesis using g(1) g(2) [OF q] confinedD(2) [OF assms(2), of w1 q v] q by simp
  next
    case (Raised e w1)
    then show ?thesis using g(2) [OF q] by simp
  qed
qed

lemma confined_Done: "confined part (Done v)"
  by (simp add: confined_def)

lemma confined_block:
  assumes "\<And>f. f \<in> set stmts \<Longrightarrow> confined part f"
  shows "confined part (block stmts)"
  using assms
proof (induction stmts)
  case Nil
  have "block [] = Done ()" by (rule ext) simp
  then show ?case by (simp add: confined_Done)
next
  case (Cons f stmts)
  have "confined part (\<lambda>w. and_then (f w) (\<lambda>_. block stmts))"
    by (rule confined_and_then) (simp_all add: Cons)
  moreover have "block (f # stmts) = (\<lambda>w. and_then (f w) (\<lambda>_. block stmts))"
    by (rule ext) simp
  ultimately show ?case by simp
qed

lemma confined_mkdir: "confined part (mkdir_exist_ok p)"
  unfolding mkdir_exist_ok_def
  by (rule confined_io) (auto simp: confined_def on_path_def)

lemma confined_unlink: "confined part (unlink_missing_ok part)"
  unfolding unlink_missing_ok_def
  by (rule confined_io) (auto simp: confined_def on_path_def)

lemma confined_connect: "confined part (connect part)"
  unfolding connect_def
  by (rule confined_io) (auto simp: confined_def on_path_def Let_def)

lemma confined_cursor: "confined part cursor"
  unfolding cursor_def
  by (rule confined_io) (auto simp: confined_def on_path_def split: option.splits)

lemma confined_execute: "confined part (execute stmt)"
  unfolding execute_def
  by (rule confined_io)
     (auto simp: confined_def on_path_def commit_view_def Let_def
        split: option.splits handle.splits sum.splits)

lemma confined_count_rows: "confined part (count_rows n)"
  unfolding count_rows_def
  by (rule confined_io)
     (auto simp: confined_def on_path_def split: option.splits handle.splits)

lemma confined_print_counts: "confined part (print_counts a b c)"
  by (auto simp: confined_def on_path_def print_counts_def)

lemma confined_cursor_close: "confined part cursor_close"
  unfolding cursor_close_def
  by (rule confined_io) (auto simp: confined_def on_path_def split: handle.splits)

lemma confined_conn_commit: "confined part conn_commit"
  unfolding conn_commit_def
  by (rule confined_io)
     (auto simp: confined_def on_path_def commit_view_def Let_def split: option.splits)

lemma confined_conn_close: "confined part conn_close"
  unfolding conn_close_def
  by (rule confined_io) (auto simp: confined_def on_path_def split: option.splits)

lemma confined_init_db: "confined part init_db"
  unfolding init_db_def
  by (rule confined_block) (auto simp: confined_execute)

lemma confined_prepare: "indexdb_path_part self = part \<Longrightarrow> confined part (prepare self)"
  unfolding prepare_def
  by (rule confined_block)
     (auto simp: confined_execute confined_init_db confined_cursor confined_connect
        confined_unlink confined_mkdir)

lemma confined_index_product: "confined part (index_product E prd)"
  by (simp add: index_product_def confined_execute)

lemma confined_Raised: "confined part (Raised e)"
  by (simp add: confined_def)

lemma confined_index_changes: "confined part (index_changes E prd cl acc)"
proof (induction cl arbitrary: acc)
  case Nil
  have "index_changes E prd [] acc = Done acc" by (rule ext) simp
  then show ?case by (simp add: confined_Done)
next
  case (Cons r cl)
  show ?case
  proof (cases "index_change prd r")
    case (Inl e)
    then have "index_changes E prd (r # cl) acc = Raised e" by (intro ext) simp
    then show ?thesis by (simp add: confined_Raised)
  next
    case (Inr idx)
    show ?thesis
    proof (cases "json_dumps E (idx_record idx)")
      case None
      then have "index_changes E prd (r # cl) acc = Raised TypeError"
        using Inr by (intro ext) simp
      then show ?thesis by (simp add: confined_Raised)
    next
      case (Some js)
      have "index_changes E prd (r # cl) acc =
          (\<lambda>w. and_then (execute (Insert ''changelog'' (changelog_values E idx js)) w)
             (\<lambda>_. index_changes E prd cl (summaries_add (timestamp r) (category r) acc)))"
        using Inr Some by (intro ext) simp
      moreover have "confined part (\<lambda>w. and_then (execute (Insert ''changelog'' (changelog_values E idx js)) w)
             (\<lambda>_. index_changes E prd cl (summaries_add (timestamp r) (category r) acc)))"
        by (rule confined_and_then) (simp_all add: confined_execute Cons.IH)
      ultimately show ?thesis by simp
    qed
  qed
qed

lemma confined_index_summaries: "confined part (index_summaries E prd items)"
proof (induction items)
  case Nil
  have "index_summaries E prd [] = Done ()" by (rule ext) simp
  then show ?case by (simp add: confined_Done)
next
  case (Cons item items)
  have "index_summaries E prd (item # items) =
      (\<lambda>w. and_then (execute (Insert ''changelog_summary'' (summary_values E prd item)) w)
         (\<lambda>_. index_summaries E prd items))"
    by (intro ext) simp
  moreover have "confined part (\<lambda>w. and_then (execute (Insert ''changelog_summary'' (summary_values E prd item)) w)
         (\<lambda>_. index_summaries E prd items))"
    by (rule confined_and_then) (simp_all add: confined_execute Cons.IH)
  ultimately show ?case by simp
qed

lemma confined_index_changelog: "confined part (index_changelog E prd cl)"
proof -
  have "index_changelog E prd cl =
      (\<lambda>w. and_then (index_changes E prd cl [] w) (index_summaries E prd))"
    by (intro ext) (simp add: index_changelog_def)
  moreover have "confined part (\<lambda>w. and_then (index_changes E prd cl [] w) (index_summaries E prd))"
    by (rule confined_and_then) (simp_all add: confined_index_changes confined_index_summaries)
  ultimately show ?thesis by simp
qed

lemma confined_process: "confined part (process E data)"
proof (cases "data_product data")
  case None
  then have "process E data = Done ()" by (intro ext) (simp add: process_def)
  then show ?thesis by (simp add: confined_Done)
next
  case (Some prd)
  have "process E data = (\<lambda>w. and_then (index_product E prd w) (\<lambda>_ w'.
            case data_changelog data of
              None \<Rightarrow> Done () w'
            | Some changelog \<Rightarrow> index_changelog E prd changelog w'))"
    using Some by (intro ext) (simp add: process_def)
  moreover have "confined part (\<lambda>w'. case data_changelog data of
              None \<Rightarrow> Done () w'
            | Some changelog \<Rightarrow> index_changelog E prd changelog w')"
    by (cases "data_changelog data") (simp_all add: confined_Done confined_index_changelog)
  then have "confined part (\<lambda>w. and_then (index_product E prd w) (\<lambda>_ w'.
            case data_changelog data of
              None \<Rightarrow> Done () w'
            | Some changelog \<Rightarrow> index_changelog E prd changelog w'))"
    by (intro confined_and_then confined_index_product)
  ultimately show ?thesis by simp
qed

lemma confined_process_all: "confined part (process_all E bundles)"
proof (induction bundles)
  case Nil
  have "process_all E [] = Done ()" by (rule ext) simp
  then show ?case by (simp add: confined_Done)
next
  case (Cons d bundles)
  have "process_all E (d # bundles) = (\<lambda>w. and_then (process E d w) (\<lambda>_. process_all E bundles))"
    by (intro ext) simp
  moreover have "confined part (\<lambda>w. and_then (process E d w) (\<lambda>_. process_all E bundles))"
    by (rule confined_and_then) (simp_all add: confined_process Cons.IH)
  ultimately show ?case by simp
qed

lemma is_raised: "\<not> is_done x \<Longrightarrow> \<exists>e. x = Raised e (world_of x)"
  by (cases x) auto

lemma safe_of_confined:
  assumes "confined part f" "live \<noteq> part"
  shows "safe part live f"
  unfolding safe_def
proof (intro allI impI)
  fix w assume w: "on_path part w"
  show "case f w of Done v w' \<Rightarrow> True | Raised e w' \<Rightarrow> fs w' live = fs w live"
    using confinedD(2) [OF assms(1) w assms(2)] by (cases "f w") simp_all
qed

lemma safe_and_then:
  assumes "confined part g" and "\<And>v. safe part live (f v)" and "live \<noteq> part"
  shows "safe part live (\<lambda>w. and_then (g w) f)"
  unfolding safe_def
proof (intro allI impI)
  fix w assume w: "on_path part w"
  note g = confinedD [OF assms(1) w]
  show "case and_then (g w) f of Done v w' \<Rightarrow> True | Raised e w' \<Rightarrow> fs w' live = fs w live"
  proof (cases "g w")
    case (Done v w1)
    then have w1: "on_path part w1" "fs w1 live = fs w live"
      using g(1) g(2) [OF assms(3)] by simp_all
    have "case f v w1 of Done v w' \<Rightarrow> True | Raised e w' \<Rightarrow> fs w' live = fs w1 live"
      using assms(2) [of v] w1(1) by (simp add: safe_def)
    then show ?thesis using Done w1(2) by (simp split: outcome.splits)
  next
    case (Raised e w1)
    then show ?thesis using g(2) [OF assms(3)] by simp
  qed
qed

lemma safe_os_replace: "safe part live (os_replace src dst)"
  by (simp add: safe_def os_replace_def io_def)

lemma safe_block_last:
  assumes "\<And>f. f \<in> set stmts \<Longrightarrow> confined part f" and "safe part live g" and "live \<noteq> part"
  shows "safe part live (block (stmts @ [g]))"
  using assms(1)
proof (induction stmts)
  case Nil
  have "block [g] w = (case g w of Done v w' \<Rightarrow> Done () w' | Raised e w' \<Rightarrow> Raised e w')" for w
    by (cases "g w") simp_all
  then show ?case using assms(2) by (auto simp: safe_def split: outcome.splits)
next
  case (Cons f stmts)
  have "safe part live (\<lambda>w. and_then (f w) (\<lambda>_. block (stmts @ [g])))"
    by (rule safe_and_then) (simp_all add: Cons assms(3))
  moreover have "block ((f # stmts) @ [g]) = (\<lambda>w. and_then (f w) (\<lambda>_. block (stmts @ [g])))"
    by (rule ext) simp
  ultimately show ?case by simp
qed

lemma safe_finish:
  assumes "indexdb_path_part self = part" "indexdb_path self = live" "live \<noteq> part"
  shows "safe part live (finish self)"
proof -
  have tail: "safe part live (block
         [print_counts n1 n2 n3, cursor_close, conn_commit, conn_close,
          os_replace (indexdb_path_part self) (indexdb_path self)])" for n1 n2 n3
  proof -
    have "safe part live (block ([print_counts n1 n2 n3, cursor_close, conn_commit, conn_close] @
          [os_replace (indexdb_path_part self) (indexdb_path self)]))"
      by (rule safe_block_last)
         (auto simp: confined_print_counts confined_cursor_close confined_conn_commit
            confined_conn_close safe_os_replace assms(3))
    then show ?thesis by simp
  qed
  have "finish self = (\<lambda>w. and_then (execute End w) (\<lambda>_ w.
     and_then (count_rows ''products'' w) (\<lambda>n1 w.
     and_then (count_rows ''changelog'' w) (\<lambda>n2 w.
     and_then (count_rows ''changelog_summary'' w) (\<lambda>n3.
       block
         [print_counts n1 n2 n3, cursor_close, conn_commit, conn_close,
          os_replace (indexdb_path_part self) (indexdb_path self)])))))"
    by (intro ext) (simp add: finish_def)
  moreover have "safe part live (\<lambda>w. and_then (execute End w) (\<lambda>_ w.
     and_then (count_rows ''products'' w) (\<lambda>n1 w.
     and_then (count_rows ''changelog'' w) (\<lambda>n2 w.
     and_then (count_rows ''changelog_summary'' w) (\<lambda>n3.
       block
         [print_counts n1 n2 n3, cursor_close, conn_commit, conn_close,
          os_replace (indexdb_path_part self) (indexdb_path self)])))))"
    by (intro safe_and_then confined_execute confined_count_rows tail assms(3))
  ultimately show ?thesis by simp
qed

lemma with_name_differs:
  assumes "with_name live (path_name live @ ''.part'') = Inr part"
  shows "part \<noteq> live"
proof
  assume eq: "part = live"
  from assms have ne: "live \<noteq> []" and p: "part = butlast live @ [last live @ ''.part'']"
    by (auto simp: with_name_def path_name_def split: if_splits)
  have "live = butlast live @ [last live]" using ne by simp
  then have "butlast live @ [last live @ ''.part''] = butlast live @ [last live]"
    using p eq by simp
  then show False by simp
qed

lemma init_Done:
  assumes "init live w = Done self w0"
  shows "indexdb_path self = live" "indexdb_path_part self \<noteq> live"
    "w0 = w\<lparr>conn := None, cur := Unset\<rparr>"
  using assms with_name_differs [of live]
  by (auto simp: init_def split: sum.splits)

lemma init_Raised: "init live w = Raised e w' \<Longrightarrow> w' = w"
  by (auto simp: init_def split: sum.splits)

lemma on_path_init: "on_path part (w\<lparr>conn := None, cur := Unset\<rparr>)"
  by (simp add: on_path_def)

lemma confined_prepare_process:
  assumes "indexdb_path_part self = part"
  shows "confined part (\<lambda>w. and_then (prepare self w) (\<lambda>_. process_all E bundles))"
  by (rule confined_and_then) (simp_all add: confined_prepare [OF assms] confined_process_all)

lemma safe_run:
  assumes "indexdb_path_part self = part" "indexdb_path self = live" "live \<noteq> part"
  shows "safe part live (\<lambda>w. and_then (prepare self w) (\<lambda>_ w.
           and_then (process_all E bundles w) (\<lambda>_. finish self)))"
  by (intro safe_and_then confined_prepare confined_process_all safe_finish assms)

lemma block_last_Done:
  "block (stmts @ [g]) w = Done u w' \<Longrightarrow> \<exists>w1. g w1 = Done () w'"
proof (induction stmts arbitrary: w)
  case Nil
  then show ?case by (cases "g w") auto
next
  case (Cons f stmts)
  then show ?case by (cases "f w") auto
qed

lemma os_replace_Done:
  assumes "os_replace src dst w1 = Done u w'" "src \<noteq> dst"
  shows "fs w' dst = fs w1 src \<and> fs w1 src \<noteq> None \<and> fs w' src = None"
  using assms by (auto simp: os_replace_def io_def split: if_splits)

lemma finish_Done:
  assumes "finish self w = Done u w'" "indexdb_path_part self \<noteq> indexdb_path self"
  shows "fs w' (indexdb_path self) \<noteq> None \<and> fs w' (indexdb_path_part self) = None"
proof -
  from assms(1) obtain n1 n2 n3 w4 where
    "block ([print_counts n1 n2 n3, cursor_close, conn_commit, conn_close] @
       [os_replace (indexdb_path_part self) (indexdb_path self)]) w4 = Done u w'"
    by (auto simp: finish_def dest!: and_then_Done)
  from block_last_Done [OF this] obtain w1 where
    "os_replace (indexdb_path_part self) (indexdb_path self) w1 = Done () w'" by blast
  from os_replace_Done [OF this assms(2)] show ?thesis by simp
qed

lemma execute_Delete_rows:
  assumes "execute (Delete n) w = Done u w'"
  shows "table_rows n' w' = (if n' = n then [] else table_rows n' w)"
proof -
  from execute_Done [OF assms] obtain c st where
    c: "conn w = Some c" and
    st: "run_statement (Delete n) (view c, in_transaction c) = Inr st" and
    w': "w' = commit_view c st (w\<lparr>budget := budget w - 1\<rparr>)" by blast
  from st obtain tb where tb: "map_of (tables (view c)) n = Some tb"
    and st': "st = ((view c)\<lparr>tables := put_table n (tb\<lparr>rows := []\<rparr>) (tables (view c))\<rparr>, in_transaction c)"
    by (auto split: option.splits)
  show ?thesis
    by (simp add: w' st' c tb table_rows_def commit_view_def Let_def map_of_put_table)
qed

lemma block_append: "block (xs @ ys) w = and_then (block xs w) (\<lambda>_. block ys)"
proof (induction xs arbitrary: w)
  case Nil
  then show ?case by simp
next
  case (Cons f xs)
  then show ?case by (cases "f w") simp_all
qed

lemma prepare_rows:
  assumes "prepare self w = Done u w'"
  shows "table_rows ''products'' w' = []" "table_rows ''changelog'' w' = []"
    "table_rows ''changelog_summary'' w' = []"
proof -
  let ?pre = "[mkdir_exist_ok (path_parent (indexdb_path self)),
      unlink_missing_ok (indexdb_path_part self), connect (indexdb_path_part self),
      cursor, init_db, execute Begin]"
  let ?del = "[execute (Delete ''products''), execute (Delete ''changelog''),
      execute (Delete ''changelog_summary'')]"
  have "prepare self w = block (?pre @ ?del) w" by (simp add: prepare_def)
  then have "and_then (block ?pre w) (\<lambda>_. block ?del) = Done u w'"
    using assms by (simp only: block_append)
  then obtain w1 where "block ?del w1 = Done u w'" by (auto dest!: and_then_Done)
  then obtain w2 w3 where
    d1: "execute (Delete ''products'') w1 = Done () w2" and
    d2: "execute (Delete ''changelog'') w2 = Done () w3" and
    d3: "execute (Delete ''changelog_summary'') w3 = Done () w'"
    by (auto dest!: and_then_Done)
  note r1 = execute_Delete_rows [OF d1] and r2 = execute_Delete_rows [OF d2]
    and r3 = execute_Delete_rows [OF d3]
  show "table_rows ''products'' w' = []" by (simp add: r1 r2 r3)
  show "table_rows ''changelog'' w' = []" by (simp add: r1 r2 r3)
  show "table_rows ''changelog_summary'' w' = []" by (simp add: r1 r2 r3)
qed

lemma indexed_as_changelog_row: "indexed_as E prd r x \<Longrightarrow> x = changelog_row E prd r"
  by (auto simp: indexed_as_def changelog_row_def split: sum.splits option.splits)

lemma list_all2_indexed_as:
  "list_all2 (indexed_as E prd) cl xs \<Longrightarrow> xs = map (changelog_row E prd) cl"
  by (induction cl xs rule: list_all2_induct) (auto dest: indexed_as_changelog_row)

lemma index_changelog_all_rows:
  assumes "index_changelog E prd cl w = Done u w'" "valid_iter (set_iter E)"
  shows "table_rows n w' = table_rows n w @
     (if n = ''changelog'' then map (changelog_row E prd) cl
      else if n = ''changelog_summary''
      then map (spec_summary_row E prd (set cl)) (map fst (summarize cl []))
      else [])"
proof -
  from assms(1) obtain acc w1 where
    a: "index_changes E prd cl [] w = Done acc w1" and
    b: "index_summaries E prd acc w1 = Done u w'"
    by (auto simp: index_changelog_def dest!: and_then_Done)
  from index_changes_Done [OF a] obtain added where
    s: "acc = summarize cl []" and added: "list_all2 (indexed_as E prd) cl added" and
    rows: "\<And>n. table_rows n w1 = (if n = ''changelog'' then table_rows n w @ added else table_rows n w)"
    by blast
  note fin = index_summaries_Done [OF b, of n]
  show ?thesis
    using fin rows [of n] list_all2_indexed_as [OF added] summary_rows_spec [OF assms(2), of prd cl] s
    by (cases "n = ''changelog''"; cases "n = ''changelog_summary''"; simp)
qed

lemma process_rows:
  assumes "process E data w = Done u w'" "valid_iter (set_iter E)"
  shows "table_rows n w' = table_rows n w @ bundle_rows E data n"
proof (cases "data_product data")
  case None
  then show ?thesis using assms(1) by (simp add: process_def bundle_rows_def)
next
  case (Some prd)
  from assms(1) Some obtain v w1 where
    p: "index_product E prd w = Done v w1" and
    rest: "(case data_changelog data of None \<Rightarrow> Done () w1
            | Some cl \<Rightarrow> index_changelog E prd cl w1) = Done u w'"
    by (auto simp: process_def dest!: and_then_Done)
  note pr = index_product_rows [OF p, of n]
  show ?thesis
  proof (cases "data_changelog data")
    case None
    then show ?thesis using rest pr Some by (simp add: bundle_rows_def)
  next
    case (Some cl)
    then have "index_changelog E prd cl w1 = Done u w'" using rest by simp
    from index_changelog_all_rows [OF this assms(2), of n] pr
    show ?thesis using Some \<open>data_product data = Some prd\<close> by (simp add: bundle_rows_def)
  qed
qed

lemma process_all_rows:
  assumes "process_all E bundles w = Done u w'" "valid_iter (set_iter E)"
  shows "table_rows n w' = table_rows n w @ expected_rows E bundles n"
  using assms(1)
proof (induction bundles arbitrary: w)
  case Nil
  then show ?case by (simp add: expected_rows_def)
next
  case (Cons d bundles)
  from Cons.prems obtain v w1 where
    p: "process E d w = Done v w1" and rest: "process_all E bundles w1 = Done u w'"
    by (auto dest!: and_then_Done)
  show ?case
    using Cons.IH [OF rest] process_rows [OF p assms(2), of n] by (simp add: expected_rows_def)
qed

lemma rows_set_iter:
  "product_values (E\<lparr>set_iter := f\<rparr>) prd = product_values E prd"
  "changelog_row (E\<lparr>set_iter := f\<rparr>) prd r = changelog_row E prd r"
  "spec_summary_row (E\<lparr>set_iter := f\<rparr>) prd recs k = spec_summary_row E prd recs k"
  by (simp_all add: product_values_def changelog_row_def changelog_values_def
        spec_summary_row_def split: sum.splits option.splits)

lemma bundle_rows_set_iter: "bundle_rows (E\<lparr>set_iter := f\<rparr>) data n = bundle_rows E data n"
  by (simp add: bundle_rows_def rows_set_iter split: option.splits)

lemma expected_rows_set_iter: "expected_rows (E\<lparr>set_iter := f\<rparr>) bundles n = expected_rows E bundles n"
  by (simp add: expected_rows_def bundle_rows_set_iter)

lemma execute_End_staged:
  assumes "execute End w = Done u w'" "conn w = Some c" "database c = part"
  shows "staged part (view c) w'"
proof -
  from execute_Done [OF assms(1)] assms(2) obtain st where
    st: "run_statement End (view c, in_transaction c) = Inr st" and
    w': "w' = commit_view c st (w\<lparr>budget := budget w - 1\<rparr>)" by auto
  from st have "st = (view c, False)" by (auto split: if_splits)
  then show ?thesis using assms(3) by (simp add: w' staged_def commit_view_def Let_def)
qed

lemma staged_budget [simp]: "staged part V (w\<lparr>budget := b\<rparr>) = staged part V w"
  by (simp add: staged_def)

lemma count_rows_staged:
  "count_rows n w = Done k w' \<Longrightarrow> staged part V w \<Longrightarrow> staged part V w'"
  by (auto simp: count_rows_def dest!: io_Done split: handle.splits option.splits if_splits)

lemma print_counts_staged:
  "print_counts a b c w = Done u w' \<Longrightarrow> staged part V w \<Longrightarrow> staged part V w'"
  by (auto simp: print_counts_def staged_def)

lemma cursor_close_staged:
  "cursor_close w = Done u w' \<Longrightarrow> staged part V w \<Longrightarrow> staged part V w'"
  by (auto simp: cursor_close_def staged_def dest!: io_Done split: handle.splits option.splits)

lemma conn_commit_staged:
  "conn_commit w = Done u w' \<Longrightarrow> staged part V w \<Longrightarrow> staged part V w'"
  by (auto simp: conn_commit_def staged_def commit_view_def Let_def dest!: io_Done
        split: option.splits if_splits)

lemma conn_close_staged:
  "conn_close w = Done u w' \<Longrightarrow> staged part V w \<Longrightarrow> staged part V w'"
  by (auto simp: conn_close_def staged_def dest!: io_Done split: option.splits)

lemma finish_publishes:
  assumes "finish self w = Done u w'" "conn w = Some c"
    "database c = indexdb_path_part self" "indexdb_path_part self \<noteq> indexdb_path self"
  shows "fs w' (indexdb_path self) = Some (view c)"
proof -
  let ?part = "indexdb_path_part self"
  from assms(1) obtain w1 n1 w2 n2 w3 n3 w4 where
    e: "execute End w = Done () w1" and
    c1: "count_rows ''products'' w1 = Done n1 w2" and
    c2: "count_rows ''changelog'' w2 = Done n2 w3" and
    c3: "count_rows ''changelog_summary'' w3 = Done n3 w4" and
    b: "block [print_counts n1 n2 n3, cursor_close, conn_commit, conn_close,
          os_replace ?part (indexdb_path self)] w4 = Done u w'"
    by (auto simp: finish_def dest!: and_then_Done)
  from b obtain w5 w6 w7 w8 where
    p: "print_counts n1 n2 n3 w4 = Done () w5" and
    cc: "cursor_close w5 = Done () w6" and
    cm: "conn_commit w6 = Done () w7" and
    cl: "conn_close w7 = Done () w8" and
    r: "os_replace ?part (indexdb_path self) w8 = Done () w'"
    by (auto dest!: and_then_Done)
  have "staged ?part (view c) w1" by (rule execute_End_staged [OF e assms(2,3)])
  then have "staged ?part (view c) w4"
    using count_rows_staged [OF c1] count_rows_staged [OF c2] count_rows_staged [OF c3] by blast
  then have "staged ?part (view c) w8"
    using print_counts_staged [OF p] cursor_close_staged [OF cc] conn_commit_staged [OF cm]
      conn_close_staged [OF cl] by blast
  then have "fs w8 ?part = Some (view c)" by (simp add: staged_def)
  then show ?thesis using os_replace_Done [OF r assms(4)] by simp
qed

lemma rebuild_rows:
  assumes "rebuild E live bundles w = Done u w'" "valid_iter (set_iter E)"
    and "n = ''products'' \<or> n = ''changelog'' \<or> n = ''changelog_summary''"
  shows "file_rows n (fs w' live) = expected_rows E bundles n"
proof -
  from assms(1) obtain self w0 w1 w2 where
    i: "init live w = Done self w0" and
    p: "prepare self w0 = Done () w1" and
    a: "process_all E bundles w1 = Done () w2" and
    f: "finish self w2 = Done u w'"
    by (auto simp: rebuild_def dest!: and_then_Done)
  note id = init_Done [OF i]
  let ?part = "indexdb_path_part self"
  have "on_path ?part w0" by (simp add: id(3) on_path_init)
  then have "on_path ?part (world_of (prepare self w0))"
    by (rule confinedD(1) [OF confined_prepare [OF refl]])
  then have "on_path ?part w1" by (simp add: p)
  then have "on_path ?part (world_of (process_all E bundles w1))"
    by (rule confinedD(1) [OF confined_process_all])
  then have o: "on_path ?part w2" by (simp add: a)
  from f obtain v w3 where "execute End w2 = Done v w3"
    by (auto simp: finish_def dest!: and_then_Done)
  from execute_Done [OF this] obtain c where c: "conn w2 = Some c" by blast
  then have d: "database c = ?part" using o by (simp add: on_path_def)
  have "fs w' (indexdb_path self) = Some (view c)"
    using finish_publishes [OF f c d] id(1,2) by simp
  then have "file_rows n (fs w' live) = table_rows n w2"
    by (simp add: id(1) file_rows_def table_rows_def c)
  also have "\<dots> = table_rows n w1 @ expected_rows E bundles n"
    by (rule process_all_rows [OF a assms(2)])
  also have "table_rows n w1 = []"
    using prepare_rows [OF p] assms(3) by auto
  finally show ?thesis by simp
qed

lemma valid_iter_rev: "valid_iter (\<lambda>S. rev (sorted_list_of_set S))"
  by (simp add: valid_iter_def)

lemma width_put_table:
  assumes "map_of (tables s) n = Some tb"
  shows "width (s\<lparr>tables := put_table n (tb\<lparr>rows := x\<rparr>) (tables s)\<rparr>) n' = width s n'"
  using assms by (simp add: width_def map_of_put_table)

lemma execute_Insert_ready:
  assumes "ready (Suc k) w" and "width_of = length r"
    and "(n = ''products'' \<and> width_of = 7) \<or> (n = ''changelog'' \<and> width_of = 9) \<or>
         (n = ''changelog_summary'' \<and> width_of = 4)"
  shows "\<exists>w'. execute (Insert n r) w = Done () w' \<and> ready k w'"
proof -
  from assms(1) obtain c where
    b: "Suc k \<le> budget w" and o: "cur w = Opened" and c: "conn w = Some c" and
    nc: "\<not> closed c" and
    wd: "width (view c) ''products'' = Some 7" "width (view c) ''changelog'' = Some 9"
        "width (view c) ''changelog_summary'' = Some 4"
    by (auto simp: ready_def split: option.splits)
  from assms(2,3) wd obtain tb where
    tb: "map_of (tables (view c)) n = Some tb" and len: "length r = length (columns tb)"
    by (auto simp: width_def)
  have nz: "budget w \<noteq> 0" using b by simp
  let ?s = "(view c)\<lparr>tables := put_table n (tb\<lparr>rows := rows tb @ [r]\<rparr>) (tables (view c))\<rparr>"
  have ex: "execute (Insert n r) w =
      Done () (commit_view c (?s, in_transaction c) (w\<lparr>budget := budget w - 1\<rparr>))"
    by (simp add: execute_ready [OF nz o c nc] tb len)
  have "ready k (commit_view c (?s, in_transaction c) (w\<lparr>budget := budget w - 1\<rparr>))"
    using b o nc wd by (simp add: ready_def commit_view_def Let_def width_put_table [OF tb])
  with ex show ?thesis by blast
qed

lemma index_change_width:
  "length (changelog_values E idx js) = 9" "length (summary_values E prd item) = 4"
  "length (product_values E prd) = 7"
  by (simp_all add: changelog_values_def summary_values_def product_values_def)

lemma index_changes_ready:
  assumes "list_all (indexable E prd) cl" "ready (length cl + k) w"
  shows "\<exists>acc' w'. index_changes E prd cl acc w = Done acc' w' \<and> ready k w'"
  using assms
proof (induction cl arbitrary: acc w)
  case Nil
  then show ?case by simp
next
  case (Cons r cl)
  from Cons.prems(1) have ir: "indexable E prd r" and rest: "list_all (indexable E prd) cl"
    by simp_all
  from ir obtain idx js where
    idx: "index_change prd r = Inr idx" and js: "json_dumps E r = Some js"
    by (auto simp: indexable_def split: sum.splits)
  have rec: "idx_record idx = r" by (rule index_change_record [OF idx])
  have "ready (Suc (length cl + k)) w" using Cons.prems(2) by simp
  from execute_Insert_ready [OF this, of 9 "changelog_values E idx js" "''changelog''"]
  obtain w1 where
    ex: "execute (Insert ''changelog'' (changelog_values E idx js)) w = Done () w1" and
    r1: "ready (length cl + k) w1"
    by (auto simp: index_change_width)
  from Cons.IH [OF rest r1] obtain acc' w' where
    "index_changes E prd cl (summaries_add (timestamp r) (category r) acc) w1 = Done acc' w'"
    "ready k w'" by blast
  then show ?case using idx js rec ex by auto
qed

lemma index_summaries_ready:
  assumes "ready (length items + k) w"
  shows "\<exists>w'. index_summaries E prd items w = Done () w' \<and> ready k w'"
  using assms
proof (induction items arbitrary: w)
  case Nil
  then show ?case by simp
next
  case (Cons item items)
  have "ready (Suc (length items + k)) w" using Cons.prems by simp
  from execute_Insert_ready [OF this, of 4 "summary_values E prd item" "''changelog_summary''"]
  obtain w1 where
    ex: "execute (Insert ''changelog_summary'' (summary_values E prd item)) w = Done () w1" and
    r1: "ready (length items + k) w1"
    by (auto simp: index_change_width)
  from Cons.IH [OF r1] show ?case using ex by auto
qed

lemma summaries_add_length: "length (summaries_add k c acc) \<le> Suc (length acc)"
  by (induction acc) auto

lemma summarize_length: "length (summarize cl acc) \<le> length acc + length cl"
proof (induction cl arbitrary: acc)
  case Nil
  then show ?case by (simp add: summarize_Nil)
next
  case (Cons r cl)
  have "length (summarize cl (summaries_add (timestamp r) (category r) acc)) \<le>
      length (summaries_add (timestamp r) (category r) acc) + length cl" by (rule Cons.IH)
  also have "\<dots> \<le> Suc (length acc) + length cl"
    using summaries_add_length [of "timestamp r" "category r" acc] by simp
  finally show ?case by (simp add: summarize_Cons)
qed

lemma ready_mono: "ready k w \<Longrightarrow> j \<le> k \<Longrightarrow> ready j w"
  by (auto simp: ready_def)

lemma index_changelog_ready:
  assumes "list_all (indexable E prd) cl" "ready (2 * length cl) w"
  shows "\<exists>w'. index_changelog E prd cl w = Done () w' \<and> ready 0 w'"
proof -
  have "ready (length cl + length cl) w" using assms(2) by (simp add: mult_2)
  from index_changes_ready [OF assms(1) this, of "[]"] obtain acc w1 where
    a: "index_changes E prd cl [] w = Done acc w1" and r1: "ready (length cl) w1" by blast
  have "acc = summarize cl []" using index_changes_Done [OF a] by blast
  then have "length acc \<le> length cl" using summarize_length [of cl "[]"] by simp
  then have "ready (length acc + 0) w1" using r1 by (auto intro: ready_mono)
  from index_summaries_ready [OF this, of E prd] obtain w' where
    "index_summaries E prd acc w1 = Done () w'" "ready 0 w'" by blast
  then show ?thesis using a by (auto simp: index_changelog_def)
qed

lemma process_both_ready:
  assumes "list_all (indexable E prd) cl" "ready (Suc (2 * length cl)) w"
  shows "is_done (process E \<lparr>data_product = Some prd, data_changelog = Some cl\<rparr> w)"
proof -
  from execute_Insert_ready [OF assms(2), of 7 "product_values E prd" "''products''"]
  obtain w1 where
    p: "index_product E prd w = Done () w1" and r1: "ready (2 * length cl) w1"
    by (auto simp: index_change_width index_product_def)
  from index_changelog_ready [OF assms(1) r1] obtain w' where
    "index_changelog E prd cl w1 = Done () w'" by blast
  then show ?thesis using p by (simp add: process_def)
qed

lemma process_both_rows:
  assumes "process E \<lparr>data_product = Some prd, data_changelog = Some cl\<rparr> w = Done u w'"
  shows "table_rows ''products'' w' = table_rows ''products'' w @ [product_values E prd]"
    and "table_rows ''changelog'' w' = table_rows ''changelog'' w @ map (changelog_row E prd) cl"
    and "table_rows ''changelog_summary'' w' =
           table_rows ''changelog_summary'' w @ map (summary_values E prd) (summarize cl [])"
proof -
  from assms obtain v w1 where
    p: "index_product E prd w = Done v w1" and c: "index_changelog E prd cl w1 = Done u w'"
    by (auto simp: process_def dest!: and_then_Done)
  from index_changelog_Done [OF c] obtain added where
    a: "list_all2 (indexed_as E prd) cl added"
       "table_rows ''changelog'' w' = table_rows ''changelog'' w1 @ added"
       "table_rows ''changelog_summary'' w' =
          table_rows ''changelog_summary'' w1 @ map (summary_values E prd) (summarize cl [])"
       "table_rows ''products'' w' = table_rows ''products'' w1" by blast
  note pr = index_product_rows [OF p]
  show "table_rows ''products'' w' = table_rows ''products'' w @ [product_values E prd]"
    using a(4) pr [of "''products''"] by simp
  show "table_rows ''changelog'' w' = table_rows ''changelog'' w @ map (changelog_row E prd) cl"
    using a(2) pr [of "''changelog''"] list_all2_indexed_as [OF a(1)] by simp
  show "table_rows ''changelog_summary'' w' =
           table_rows ''changelog_summary'' w @ map (summary_values E prd) (summarize cl [])"
    using a(3) pr [of "''changelog_summary''"] by simp
qed

lemma init_part_parent:
  assumes "init live v0 = Done self v"
  shows "path_parent (indexdb_path_part self) = path_parent live"
  using assms by (auto simp: init_def with_name_def path_parent_def split: sum.splits if_splits)

lemma prepare_head:
  assumes "p \<in> dirs v" "part \<notin> dirs v" "path_parent part \<in> dirs v" "4 \<le> budget v"
  shows "block [mkdir_exist_ok p, unlink_missing_ok part, connect part, cursor] v =
     Done () (v\<lparr>budget := budget v - 4, fs := (fs v)(part \<mapsto> empty_store),
        conn := Some \<lparr>database = part, view = empty_store, in_transaction = False, closed = False\<rparr>,
        cur := Opened\<rparr>)"
  using assms
  by (simp add: mkdir_exist_ok_def unlink_missing_ok_def connect_def cursor_def io_def Let_def)

lemma prepare_tail:
  assumes "cur w = Opened" "conn w = Some c" "\<not> closed c" "view c = schema"
    "\<not> in_transaction c" "4 \<le> budget w"
  shows "\<exists>w' c'. block [execute Begin, execute (Delete ''products''),
        execute (Delete ''changelog''), execute (Delete ''changelog_summary'')] w = Done () w' \<and>
      conn w' = Some c' \<and> database c' = database c \<and> view c' = schema \<and> in_transaction c' \<and>
      \<not> closed c' \<and> cur w' = Opened"
  using assms
  by (simp add: execute_def io_def commit_view_def schema_def Let_def)

lemma init_db_on_empty_full:
  assumes "cur w = Opened" "conn w = Some c" "\<not> closed c" "view c = empty_store" "6 \<le> budget w"
  shows "\<exists>w' c'. init_db w = Done () w' \<and> conn w' = Some c' \<and> view c' = schema \<and>
     database c' = database c \<and> in_transaction c' = in_transaction c \<and> \<not> closed c' \<and>
     cur w' = Opened \<and> budget w' = budget w - 6"
  using assms
  by (simp add: init_db_def execute_def io_def commit_view_def empty_store_def schema_def Let_def
        products_columns_def changelog_columns_def summary_columns_def)

lemma prepare_fresh:
  assumes "init live v0 = Done self v" "path_parent live \<in> dirs v"
    "indexdb_path_part self \<notin> dirs v" "14 \<le> budget v"
  shows "\<exists>v' c'. prepare self v = Done () v' \<and> conn v' = Some c' \<and>
     database c' = indexdb_path_part self \<and> view c' = schema \<and> in_transaction c' \<and>
     \<not> closed c' \<and> cur v' = Opened"
proof -
  let ?part = "indexdb_path_part self"
  let ?head = "[mkdir_exist_ok (path_parent (indexdb_path self)), unlink_missing_ok ?part,
      connect ?part, cursor]"
  let ?tail = "[execute Begin, execute (Delete ''products''),
        execute (Delete ''changelog''), execute (Delete ''changelog_summary'')]"
  let ?c1 = "\<lparr>database = ?part, view = empty_store, in_transaction = False, closed = False\<rparr>"
  let ?v1 = "v\<lparr>budget := budget v - 4, fs := (fs v)(?part \<mapsto> empty_store),
        conn := Some ?c1, cur := Opened\<rparr>"
  note i = init_Done [OF assms(1)]
  have pp: "path_parent ?part \<in> dirs v"
    using init_part_parent [OF assms(1)] assms(2) by simp
  have h: "block ?head v = Done () ?v1"
    using prepare_head [of "path_parent (indexdb_path self)" v ?part] assms i(1) pp by simp
  have "\<exists>w' c'. init_db ?v1 = Done () w' \<and> conn w' = Some c' \<and> view c' = schema \<and>
     database c' = database ?c1 \<and> in_transaction c' = in_transaction ?c1 \<and> \<not> closed c' \<and>
     cur w' = Opened \<and> budget w' = budget ?v1 - 6"
    by (rule init_db_on_empty_full) (use assms(4) in simp_all)
  then obtain v2 c2 where
    d: "init_db ?v1 = Done () v2" and c2: "conn v2 = Some c2" "view c2 = schema"
      "database c2 = ?part" "\<not> in_transaction c2" "\<not> closed c2" "cur v2 = Opened" and
    b2: "budget v2 = budget v - 4 - 6"
    by auto
  have "4 \<le> budget v2" using b2 assms(4) by simp
  from prepare_tail [OF c2(6) c2(1) c2(5) c2(2) c2(4) this] obtain v' c' where
    t: "block ?tail v2 = Done () v'" and
    c': "conn v' = Some c'" "database c' = database c2" "view c' = schema" "in_transaction c'"
      "\<not> closed c'" "cur v' = Opened"
    by blast
  have "prepare self v = block (?head @ [init_db] @ ?tail) v" by (simp add: prepare_def)
  also have "\<dots> = and_then (block ?head v) (\<lambda>_. block ([init_db] @ ?tail))"
    by (rule block_append)
  also have "\<dots> = block ([init_db] @ ?tail) ?v1" by (simp only: h and_then.simps)
  also have "\<dots> = and_then (block [init_db] ?v1) (\<lambda>_. block ?tail)"
    by (rule block_append)
  also have "block [init_db] ?v1 = Done () v2" using d by simp
  also have "and_then (Done () v2) (\<lambda>_. block ?tail) = Done () v'" using t by simp
  finally have "prepare self v = Done () v'" .
  then show ?thesis using c' c2(3) by auto
qed

section \<open>The claims\<close>

text \<open>
  C3. When \<open>index_product\<close> returns, the table \<open>products\<close> has one more row, and the
  column \<open>sale_rank\<close> of that row is the bestseller rank of the product when it has one
  and 100000 when it has none.
\<close>

theorem index_product_sale_rank:
  assumes "index_product E prd w = Done u w'"
  shows "\<exists>r. table_rows ''products'' w' = table_rows ''products'' w @ [r] \<and>
           column products_columns ''sale_rank'' r =
             Some (SqlInt (case p_rank_bestselling prd of Some k \<Rightarrow> k | None \<Rightarrow> 100000))"
proof -
  have "table_rows ''products'' w' = table_rows ''products'' w @ [product_values E prd]"
    using index_product_rows [OF assms, of "''products''"] by simp
  moreover have "column products_columns ''sale_rank'' (product_values E prd) =
      Some (SqlInt (case p_rank_bestselling prd of Some k \<Rightarrow> k | None \<Rightarrow> 100000))"
    by (simp add: column_def products_columns_def product_values_def)
  ultimately show ?thesis by blast
qed

theorem index_product_sale_rank_witness:
  "\<exists>r. table_rows ''products'' (world_of (index_product ex_externals ex_product ex_world)) =
          table_rows ''products'' ex_world @ [r] \<and>
        column products_columns ''sale_rank'' r = Some (SqlInt 100000)"
proof -
  have "is_done (index_product ex_externals ex_product ex_world)" by code_simp
  then have h: "index_product ex_externals ex_product ex_world =
      Done () (world_of (index_product ex_externals ex_product ex_world))"
    by (rule is_done_unit)
  show ?thesis using index_product_sale_rank [OF h] by (simp add: ex_product_def)
qed

text \<open>
  C4. When \<open>index_changelog\<close> returns, the row written for a record of category
  \<open>download\<close> has in the column \<open>bonus_type\<close>: the bonus type of the old descriptor
  when there is one (whether or not there is a new one, so the old one wins when both
  are there), else the bonus type of the new descriptor when there is one, else NULL.
\<close>

theorem download_bonus_type:
  assumes "index_changelog E prd cl w = Done u w'"
    and "i < length cl" and "category (cl ! i) = ''download''"
  shows "\<exists>d. download_record (cl ! i) = Some d \<and> i < length (new_rows ''changelog'' w w') \<and>
     column changelog_columns ''bonus_type'' (new_rows ''changelog'' w w' ! i) =
       Some (case dl_old_bonus d of
               Some b \<Rightarrow> SqlText (bonus_type b)
             | None \<Rightarrow> (case dl_new_bonus d of
                          Some b \<Rightarrow> SqlText (bonus_type b)
                        | None \<Rightarrow> SqlNull))"
proof -
  from changelog_row_at [OF assms(1,2)] obtain idx js where
    idx: "index_change prd (cl ! i) = Inr idx" and
    len: "i < length (new_rows ''changelog'' w w')" and
    row: "new_rows ''changelog'' w w' ! i = changelog_values E idx js" by blast
  from index_change_download [OF idx assms(3)] obtain d where
    d: "download_record (cl ! i) = Some d" and
    b: "idx_bonus_type idx = (case dl_old_bonus d of Some b \<Rightarrow> Some (bonus_type b)
          | None \<Rightarrow> (case dl_new_bonus d of Some b \<Rightarrow> Some (bonus_type b) | None \<Rightarrow> None))"
    by blast
  have "column changelog_columns ''bonus_type'' (new_rows ''changelog'' w w' ! i) =
      Some (opt_text (idx_bonus_type idx))"
    by (simp add: row changelog_values_columns)
  then show ?thesis using d len b by (auto simp: opt_text_def split: option.splits)
qed

theorem download_bonus_type_witness:
  "\<exists>d. download_record ([ex_property, ex_download] ! 1) = Some d \<and>
     column changelog_columns ''bonus_type''
       (new_rows ''changelog'' ex_world
          (world_of (index_changelog ex_externals ex_product [ex_property, ex_download] ex_world)) ! 1) =
     Some (SqlText ''wallpaper'')"
proof -
  have "is_done (index_changelog ex_externals ex_product [ex_property, ex_download] ex_world)"
    by code_simp
  then have h: "index_changelog ex_externals ex_product [ex_property, ex_download] ex_world =
      Done () (world_of (index_changelog ex_externals ex_product [ex_property, ex_download] ex_world))"
    by (rule is_done_unit)
  have i: "1 < length [ex_property, ex_download]" by simp
  have c: "category ([ex_property, ex_download] ! 1) = ''download''" by (simp add: ex_download_def)
  show ?thesis using download_bonus_type [OF h i c] by (auto simp: ex_download_def)
qed

text \<open>
  C2. When \<open>index_changelog\<close> returns, the rows it has added to \<open>changelog_summary\<close>
  are one row for each distinct timestamp of the records, and the column \<open>categories\<close>
  of the row of a timestamp is the comma-joined sorted list of the set of category tags
  of the records that bear it. A run on a permutation of the records adds the same set
  of rows.
\<close>

theorem summary_one_row_per_timestamp:
  assumes "index_changelog E prd cl w = Done u w'" and "valid_iter (set_iter E)"
  shows "(\<exists>keys. distinct keys \<and> set keys = timestamp ` set cl \<and>
            new_rows ''changelog_summary'' w w' = map (spec_summary_row E prd (set cl)) keys \<and>
            table_rows ''changelog_summary'' w' =
              table_rows ''changelog_summary'' w @ new_rows ''changelog_summary'' w w') \<and>
         (\<forall>cl' u' w''. mset cl' = mset cl \<and> index_changelog E prd cl' w = Done u' w'' \<longrightarrow>
            set (new_rows ''changelog_summary'' w w'') = set (new_rows ''changelog_summary'' w w'))"
proof (intro conjI allI impI)
  have "new_rows ''changelog_summary'' w w' =
      map (spec_summary_row E prd (set cl)) (map fst (summarize cl []))"
    using changelog_rows_Done(2) [OF assms(1)] summary_rows_spec [OF assms(2)] by simp
  then show "\<exists>keys. distinct keys \<and> set keys = timestamp ` set cl \<and>
            new_rows ''changelog_summary'' w w' = map (spec_summary_row E prd (set cl)) keys \<and>
            table_rows ''changelog_summary'' w' =
              table_rows ''changelog_summary'' w @ new_rows ''changelog_summary'' w w'"
    using summary_keys [of cl] changelog_rows_Done(4) [OF assms(1)] by blast
next
  fix cl' u' w''
  assume a: "mset cl' = mset cl \<and> index_changelog E prd cl' w = Done u' w''"
  then have "set cl' = set cl" by (metis set_mset_mset)
  then show "set (new_rows ''changelog_summary'' w w'') = set (new_rows ''changelog_summary'' w w')"
    using summary_rows_set [OF assms] summary_rows_set [OF _ assms(2), of prd cl' w u' w''] a
    by simp
qed

theorem summary_one_row_per_timestamp_witness:
  "new_rows ''changelog_summary'' ex_world
      (world_of (index_changelog ex_externals ex_product [ex_property, ex_build, ex_download] ex_world)) =
     [[SqlInt 7, SqlText ''Foo Bar'', SqlReal 5, SqlText ''download,property''],
      [SqlInt 7, SqlText ''Foo Bar'', SqlReal 9, SqlText ''build'']] \<and>
   set (new_rows ''changelog_summary'' ex_world
      (world_of (index_changelog ex_externals ex_product [ex_build, ex_download, ex_property] ex_world))) =
   set (new_rows ''changelog_summary'' ex_world
      (world_of (index_changelog ex_externals ex_product [ex_property, ex_build, ex_download] ex_world)))"
proof -
  let ?cl = "[ex_property, ex_build, ex_download]"
  let ?cl' = "[ex_build, ex_download, ex_property]"
  have "is_done (index_changelog ex_externals ex_product ?cl ex_world)" by code_simp
  then have h: "index_changelog ex_externals ex_product ?cl ex_world =
      Done () (world_of (index_changelog ex_externals ex_product ?cl ex_world))"
    by (rule is_done_unit)
  have "is_done (index_changelog ex_externals ex_product ?cl' ex_world)" by code_simp
  then have h': "index_changelog ex_externals ex_product ?cl' ex_world =
      Done () (world_of (index_changelog ex_externals ex_product ?cl' ex_world))"
    by (rule is_done_unit)
  have v: "valid_iter (set_iter ex_externals)"
    by (simp add: ex_externals_def valid_iter_sorted_list_of_set)
  have m: "mset ?cl' = mset ?cl" by (simp add: ac_simps)
  note t = summary_one_row_per_timestamp [OF h v]
  have rows: "new_rows ''changelog_summary'' ex_world
      (world_of (index_changelog ex_externals ex_product ?cl ex_world)) =
     [[SqlInt 7, SqlText ''Foo Bar'', SqlReal 5, SqlText ''download,property''],
      [SqlInt 7, SqlText ''Foo Bar'', SqlReal 9, SqlText ''build'']]"
    by code_simp
  from t m h' have "set (new_rows ''changelog_summary'' ex_world
      (world_of (index_changelog ex_externals ex_product ?cl' ex_world))) =
   set (new_rows ''changelog_summary'' ex_world
      (world_of (index_changelog ex_externals ex_product ?cl ex_world)))"
    by blast
  with rows show ?thesis by blast
qed

text \<open>
  C10. When \<open>index_changelog\<close> returns, the rows it has added to \<open>changelog\<close> are as
  many as the records, in their order: row \<open>i\<close> has the timestamp, action, category and
  serialization of record \<open>i\<close>, and the id and the title of the product. On the empty
  list of records it returns and leaves the state as it was.
\<close>

theorem changelog_one_row_per_record:
  assumes "index_changelog E prd cl w = Done u w'"
  shows "table_rows ''changelog'' w' = table_rows ''changelog'' w @ new_rows ''changelog'' w w' \<and>
     length (new_rows ''changelog'' w w') = length cl \<and>
     (\<forall>i<length cl.
        column changelog_columns ''product_id'' (new_rows ''changelog'' w w' ! i) =
          Some (SqlInt (p_id prd)) \<and>
        column changelog_columns ''product_title'' (new_rows ''changelog'' w w' ! i) =
          Some (SqlText (p_title prd)) \<and>
        column changelog_columns ''timestamp'' (new_rows ''changelog'' w w' ! i) =
          Some (SqlReal (posix E (timestamp (cl ! i)))) \<and>
        column changelog_columns ''action'' (new_rows ''changelog'' w w' ! i) =
          Some (SqlText (action (cl ! i))) \<and>
        column changelog_columns ''category'' (new_rows ''changelog'' w w' ! i) =
          Some (SqlText (category (cl ! i))) \<and>
        column changelog_columns ''serialized_record'' (new_rows ''changelog'' w w' ! i) =
          map_option SqlText (json_dumps E (cl ! i))) \<and>
     index_changelog E prd [] w = Done () w"
proof (intro conjI allI impI)
  show "table_rows ''changelog'' w' = table_rows ''changelog'' w @ new_rows ''changelog'' w w'"
    by (rule changelog_rows_Done(3) [OF assms])
  show "length (new_rows ''changelog'' w w') = length cl"
    using changelog_rows_Done(1) [OF assms] by (simp add: list_all2_lengthD)
  show "index_changelog E prd [] w = Done () w" by (rule index_changelog_Nil)
next
  fix i assume i: "i < length cl"
  from changelog_row_at [OF assms i] obtain idx js where
    idx: "index_change prd (cl ! i) = Inr idx" and js: "json_dumps E (cl ! i) = Some js" and
    row: "new_rows ''changelog'' w w' ! i = changelog_values E idx js" by blast
  note c = index_change_common [OF idx]
  show "column changelog_columns ''product_id'' (new_rows ''changelog'' w w' ! i) =
          Some (SqlInt (p_id prd))"
    by (simp add: row changelog_values_columns c)
  show "column changelog_columns ''product_title'' (new_rows ''changelog'' w w' ! i) =
          Some (SqlText (p_title prd))"
    by (simp add: row changelog_values_columns c)
  show "column changelog_columns ''timestamp'' (new_rows ''changelog'' w w' ! i) =
          Some (SqlReal (posix E (timestamp (cl ! i))))"
    by (simp add: row changelog_values_columns c)
  show "column changelog_columns ''action'' (new_rows ''changelog'' w w' ! i) =
          Some (SqlText (action (cl ! i)))"
    by (simp add: row changelog_values_columns c)
  show "column changelog_columns ''category'' (new_rows ''changelog'' w w' ! i) =
          Some (SqlText (category (cl ! i)))"
    by (simp add: row changelog_values_columns c)
  show "column changelog_columns ''serialized_record'' (new_rows ''changelog'' w w' ! i) =
          map_option SqlText (json_dumps E (cl ! i))"
    by (simp add: row changelog_values_columns js)
qed

theorem changelog_one_row_per_record_witness:
  "length (new_rows ''changelog'' ex_world
      (world_of (index_changelog ex_externals ex_product [ex_property, ex_build, ex_download] ex_world))) = 3 \<and>
   column changelog_columns ''product_title'' (new_rows ''changelog'' ex_world
      (world_of (index_changelog ex_externals ex_product [ex_property, ex_build, ex_download] ex_world)) ! 2) =
      Some (SqlText ''Foo Bar'') \<and>
   column changelog_columns ''category'' (new_rows ''changelog'' ex_world
      (world_of (index_changelog ex_externals ex_product [ex_property, ex_build, ex_download] ex_world)) ! 2) =
      Some (SqlText ''download'')"
proof -
  let ?cl = "[ex_property, ex_build, ex_download]"
  have "is_done (index_changelog ex_externals ex_product ?cl ex_world)" by code_simp
  then have h: "index_changelog ex_externals ex_product ?cl ex_world =
      Done () (world_of (index_changelog ex_externals ex_product ?cl ex_world))"
    by (rule is_done_unit)
  have i: "2 < length ?cl" by simp
  show ?thesis
    using changelog_one_row_per_record [OF h] i
    by (auto simp: ex_product_def ex_download_def)
qed



text \<open>
  C5. A bundle without a product leaves the state as it was and raises nothing. A
  bundle with a product and no changelog does what \<open>index_product\<close> does and nothing
  more: when it returns, \<open>products\<close> has one more row and the other two tables are as
  they were, and it does return when the cursor is open on a store that has the table
  and the storage does not fail. A bundle with both indexes the product and then the
  changelog: when it returns, \<open>products\<close> has the row of the product, \<open>changelog\<close> has
  one more row for each record and \<open>changelog_summary\<close> one more row for each key of
  the summaries; and it does return when the cursor is ready for that many inserts and
  every record can be indexed.
\<close>

theorem process_tolerates_absence:
  "process E \<lparr>data_product = None, data_changelog = cl\<rparr> w = Done () w \<and>
   process E \<lparr>data_product = Some prd, data_changelog = None\<rparr> w = index_product E prd w \<and>
   (\<forall>u w'. process E \<lparr>data_product = Some prd, data_changelog = None\<rparr> w = Done u w' \<longrightarrow>
      table_rows ''products'' w' = table_rows ''products'' w @ [product_values E prd] \<and>
      table_rows ''changelog'' w' = table_rows ''changelog'' w \<and>
      table_rows ''changelog_summary'' w' = table_rows ''changelog_summary'' w) \<and>
   (\<forall>c tb. budget w \<noteq> 0 \<and> cur w = Opened \<and> conn w = Some c \<and> \<not> closed c \<and>
      map_of (tables (view c)) ''products'' = Some tb \<and> length (columns tb) = 7 \<longrightarrow>
      is_done (process E \<lparr>data_product = Some prd, data_changelog = None\<rparr> w)) \<and>
   process E \<lparr>data_product = Some prd, data_changelog = Some changelog\<rparr> w =
     and_then (index_product E prd w) (\<lambda>_. index_changelog E prd changelog) \<and>
   (\<forall>u w'. process E \<lparr>data_product = Some prd, data_changelog = Some changelog\<rparr> w = Done u w' \<longrightarrow>
      table_rows ''products'' w' = table_rows ''products'' w @ [product_values E prd] \<and>
      table_rows ''changelog'' w' =
        table_rows ''changelog'' w @ map (changelog_row E prd) changelog \<and>
      table_rows ''changelog_summary'' w' =
        table_rows ''changelog_summary'' w @
          map (summary_values E prd) (summarize changelog []) \<and>
      set (map fst (summarize changelog [])) = timestamp ` set changelog \<and>
      distinct (map fst (summarize changelog []))) \<and>
   (ready (Suc (2 * length changelog)) w \<and> list_all (indexable E prd) changelog \<longrightarrow>
      is_done (process E \<lparr>data_product = Some prd, data_changelog = Some changelog\<rparr> w))"
proof (intro conjI allI impI)
  show "process E \<lparr>data_product = None, data_changelog = cl\<rparr> w = Done () w"
    by (rule process_no_product)
  show "process E \<lparr>data_product = Some prd, data_changelog = None\<rparr> w = index_product E prd w"
    by (rule process_no_changelog)
  show "process E \<lparr>data_product = Some prd, data_changelog = Some changelog\<rparr> w =
     and_then (index_product E prd w) (\<lambda>_. index_changelog E prd changelog)"
    by (rule process_both)
  show "set (map fst (summarize changelog [])) = timestamp ` set changelog"
    by (rule summary_keys(2))
  show "distinct (map fst (summarize changelog []))"
    by (rule summary_keys(1))
next
  fix u w'
  assume "process E \<lparr>data_product = Some prd, data_changelog = None\<rparr> w = Done u w'"
  then have d: "index_product E prd w = Done u w'" by (simp add: process_no_changelog)
  show "table_rows ''products'' w' = table_rows ''products'' w @ [product_values E prd]"
    using index_product_rows [OF d, of "''products''"] by simp
  show "table_rows ''changelog'' w' = table_rows ''changelog'' w"
    using index_product_rows [OF d, of "''changelog''"] by simp
  show "table_rows ''changelog_summary'' w' = table_rows ''changelog_summary'' w"
    using index_product_rows [OF d, of "''changelog_summary''"] by simp
next
  fix c tb
  assume "budget w \<noteq> 0 \<and> cur w = Opened \<and> conn w = Some c \<and> \<not> closed c \<and>
      map_of (tables (view c)) ''products'' = Some tb \<and> length (columns tb) = 7"
  then show "is_done (process E \<lparr>data_product = Some prd, data_changelog = None\<rparr> w)"
    using index_product_ready [of w c tb E prd] by (simp add: process_no_changelog)
next
  fix u w'
  assume b: "process E \<lparr>data_product = Some prd, data_changelog = Some changelog\<rparr> w = Done u w'"
  show "table_rows ''products'' w' = table_rows ''products'' w @ [product_values E prd]"
    by (rule process_both_rows(1) [OF b])
  show "table_rows ''changelog'' w' =
        table_rows ''changelog'' w @ map (changelog_row E prd) changelog"
    by (rule process_both_rows(2) [OF b])
  show "table_rows ''changelog_summary'' w' =
        table_rows ''changelog_summary'' w @
          map (summary_values E prd) (summarize changelog [])"
    by (rule process_both_rows(3) [OF b])
next
  assume "ready (Suc (2 * length changelog)) w \<and> list_all (indexable E prd) changelog"
  then show "is_done (process E \<lparr>data_product = Some prd, data_changelog = Some changelog\<rparr> w)"
    using process_both_ready by blast
qed

theorem process_tolerates_absence_witness:
  "is_done (process ex_externals \<lparr>data_product = Some ex_product, data_changelog = None\<rparr> ex_world) \<and>
   table_rows ''products''
     (world_of (process ex_externals \<lparr>data_product = Some ex_product, data_changelog = None\<rparr> ex_world)) =
     [product_values ex_externals ex_product] \<and>
   table_rows ''changelog''
     (world_of (process ex_externals \<lparr>data_product = Some ex_product, data_changelog = None\<rparr> ex_world)) = [] \<and>
   is_done (process ex_externals \<lparr>data_product = Some ex_product,
      data_changelog = Some [ex_property, ex_build, ex_download]\<rparr> ex_world) \<and>
   table_rows ''products'' (world_of (process ex_externals \<lparr>data_product = Some ex_product,
      data_changelog = Some [ex_property, ex_build, ex_download]\<rparr> ex_world)) =
     [product_values ex_externals ex_product] \<and>
   length (table_rows ''changelog'' (world_of (process ex_externals \<lparr>data_product = Some ex_product,
      data_changelog = Some [ex_property, ex_build, ex_download]\<rparr> ex_world))) = 3 \<and>
   length (table_rows ''changelog_summary'' (world_of (process ex_externals \<lparr>data_product = Some ex_product,
      data_changelog = Some [ex_property, ex_build, ex_download]\<rparr> ex_world))) = 2"
proof -
  let ?d = "\<lparr>data_product = Some ex_product, data_changelog = None\<rparr> :: (string list, int) data_bundle"
  let ?cl = "[ex_property, ex_build, ex_download]"
  let ?b = "\<lparr>data_product = Some ex_product, data_changelog = Some ?cl\<rparr> :: (string list, int) data_bundle"
  note t = process_tolerates_absence [of ex_externals None ex_world ex_product ?cl]
  have c: "budget ex_world \<noteq> 0 \<and> cur ex_world = Opened \<and>
      conn ex_world = Some \<lparr>database = [''index.sqlite3.part''], view = ex_store,
                  in_transaction = True, closed = False\<rparr> \<and>
      \<not> closed \<lparr>database = [''index.sqlite3.part''], view = ex_store,
                  in_transaction = True, closed = False\<rparr> \<and>
      map_of (tables (view \<lparr>database = [''index.sqlite3.part''], view = ex_store,
                  in_transaction = True, closed = False\<rparr>)) ''products'' =
        Some \<lparr>columns = products_columns, rows = []\<rparr> \<and>
      length (columns \<lparr>columns = products_columns, rows = []\<rparr>) = 7"
    by (simp add: ex_world_def ex_store_def products_columns_def)
  from t c have d: "is_done (process ex_externals ?d ex_world)" by blast
  then have h: "process ex_externals ?d ex_world = Done () (world_of (process ex_externals ?d ex_world))"
    by (rule is_done_unit)
  have z: "table_rows ''products'' ex_world = []" "table_rows ''changelog'' ex_world = []"
    "table_rows ''changelog_summary'' ex_world = []"
    by (simp_all add: table_rows_def ex_world_def ex_store_def)
  from t h z(1,2) have first:
    "table_rows ''products'' (world_of (process ex_externals ?d ex_world)) =
       [product_values ex_externals ex_product]"
    "table_rows ''changelog'' (world_of (process ex_externals ?d ex_world)) = []"
    by (metis append_Nil)+
  have r: "ready (Suc (2 * length ?cl)) ex_world"
    by (simp add: ready_def width_def ex_world_def ex_store_def products_columns_def
          changelog_columns_def summary_columns_def)
  have i: "list_all (indexable ex_externals ex_product) ?cl"
    by (simp add: indexable_def index_change_def ex_externals_def ex_property_def ex_build_def
          ex_download_def)
  from t r i have d2: "is_done (process ex_externals ?b ex_world)" by blast
  then have h2: "process ex_externals ?b ex_world = Done () (world_of (process ex_externals ?b ex_world))"
    by (rule is_done_unit)
  from t h2 have rows:
    "table_rows ''products'' (world_of (process ex_externals ?b ex_world)) =
       table_rows ''products'' ex_world @ [product_values ex_externals ex_product]"
    "table_rows ''changelog'' (world_of (process ex_externals ?b ex_world)) =
       table_rows ''changelog'' ex_world @ map (changelog_row ex_externals ex_product) ?cl"
    "table_rows ''changelog_summary'' (world_of (process ex_externals ?b ex_world)) =
       table_rows ''changelog_summary'' ex_world @
         map (summary_values ex_externals ex_product) (summarize ?cl [])"
    by blast+
  have s: "length (summarize ?cl []) = 2"
    by (simp add: summarize_def ex_property_def ex_build_def ex_download_def)
  show ?thesis using d first d2 rows z s by simp
qed

text \<open>
  C8 as stated fails: the statements of \<open>init_db\<close> are plain \<open>CREATE TABLE\<close> and
  \<open>CREATE INDEX\<close>, so a second call on the store that the first call has set up raises.
\<close>

theorem init_db_idempotent_counterexample:
  "is_done (init_db ex_fresh) \<and>
   error_of (init_db (world_of (init_db ex_fresh))) = Some OperationalError \<and>
   budget (world_of (init_db ex_fresh)) = 14"
  by code_simp

text \<open>
  C8, amended. On an open connection, \<open>init_db\<close> on an empty store returns when the
  storage lets its six statements through, and the store then has the three tables and
  the three indexes. On a store that already has the table \<open>products\<close> it raises at
  its first statement and leaves the store and the files as they were: it is not
  idempotent. The processor makes this safe: \<open>prepare\<close> removes the staging file before
  it connects, so whatever file an earlier rebuild has left at the staging path,
  \<open>prepare\<close> returns (when the directory of the index is there and the storage lets its
  fourteen operations through) with the connection on the staging path, inside a
  transaction, on a store that has exactly the three empty tables and the three indexes.
\<close>

theorem init_db_fresh_only:
  assumes "cur w = Opened" and "conn w = Some c" and "\<not> closed c"
  shows "(view c = empty_store \<and> 6 \<le> budget w \<longrightarrow>
           (\<exists>w' c'. init_db w = Done () w' \<and> conn w' = Some c' \<and> view c' = schema)) \<and>
         (map_of (tables (view c)) ''products'' \<noteq> None \<and> budget w \<noteq> 0 \<longrightarrow>
           (\<exists>w'. init_db w = Raised OperationalError w' \<and> conn w' = conn w \<and> fs w' = fs w)) \<and>
         (\<forall>live v0 self v. init live v0 = Done self v \<and> path_parent live \<in> dirs v \<and>
            indexdb_path_part self \<notin> dirs v \<and> 14 \<le> budget v \<longrightarrow>
            (\<exists>v' c'. prepare self v = Done () v' \<and> conn v' = Some c' \<and>
               database c' = indexdb_path_part self \<and> view c' = schema \<and> in_transaction c'))"
proof (intro conjI allI impI)
  assume "view c = empty_store \<and> 6 \<le> budget w"
  then show "\<exists>w' c'. init_db w = Done () w' \<and> conn w' = Some c' \<and> view c' = schema"
    using init_db_on_empty [OF assms] by blast
next
  assume "map_of (tables (view c)) ''products'' \<noteq> None \<and> budget w \<noteq> 0"
  then show "\<exists>w'. init_db w = Raised OperationalError w' \<and> conn w' = conn w \<and> fs w' = fs w"
    using init_db_on_existing [OF assms] by blast
next
  fix live v0 self v
  assume a: "init live v0 = Done self v \<and> path_parent live \<in> dirs v \<and>
            indexdb_path_part self \<notin> dirs v \<and> 14 \<le> budget v"
  then have "\<exists>v' c'. prepare self v = Done () v' \<and> conn v' = Some c' \<and>
     database c' = indexdb_path_part self \<and> view c' = schema \<and> in_transaction c' \<and>
     \<not> closed c' \<and> cur v' = Opened"
    using prepare_fresh [of live v0 self v] by blast
  then show "\<exists>v' c'. prepare self v = Done () v' \<and> conn v' = Some c' \<and>
               database c' = indexdb_path_part self \<and> view c' = schema \<and> in_transaction c'"
    by blast
qed

theorem init_db_fresh_only_witness:
  "(\<exists>w' c'. init_db ex_fresh = Done () w' \<and> conn w' = Some c' \<and> view c' = schema) \<and>
   (\<exists>w'. init_db (world_of (init_db ex_fresh)) = Raised OperationalError w' \<and>
      conn w' = conn (world_of (init_db ex_fresh)) \<and> fs w' = fs (world_of (init_db ex_fresh))) \<and>
   file_rows ''products'' (fs ex_stale [''data'', ''index.sqlite3.part'']) =
      [product_values ex_externals ex_product] \<and>
   (\<exists>v' c'. prepare \<lparr>indexdb_path = ex_live, indexdb_path_part = [''data'', ''index.sqlite3.part'']\<rparr>
        (ex_stale\<lparr>conn := None, cur := Unset\<rparr>) = Done () v' \<and>
      conn v' = Some c' \<and> view c' = schema \<and> in_transaction c')"
proof -
  let ?c = "\<lparr>database = [''index.sqlite3.part''], view = empty_store,
                  in_transaction = False, closed = False\<rparr>"
  have a: "cur ex_fresh = Opened" "conn ex_fresh = Some ?c" "\<not> closed ?c"
    by (simp_all add: ex_fresh_def)
  have b: "view ?c = empty_store \<and> 6 \<le> budget ex_fresh" by (simp add: ex_fresh_def)
  note t = init_db_fresh_only [OF a]
  from t b
  have first: "\<exists>w' c'. init_db ex_fresh = Done () w' \<and> conn w' = Some c' \<and> view c' = schema"
    by blast
  then obtain w1 c1 where w1: "init_db ex_fresh = Done () w1" "conn w1 = Some c1" "view c1 = schema"
    by blast
  have w1': "world_of (init_db ex_fresh) = w1" by (simp add: w1)
  have "cur (world_of (init_db ex_fresh)) = Opened" by code_simp
  then have c: "cur w1 = Opened" by (simp add: w1')
  have "budget (world_of (init_db ex_fresh)) \<noteq> 0" by code_simp
  then have n: "budget w1 \<noteq> 0" by (simp add: w1')
  have "case conn (world_of (init_db ex_fresh)) of None \<Rightarrow> False | Some c \<Rightarrow> \<not> closed c"
    by code_simp
  then have o: "\<not> closed c1" by (simp add: w1' w1(2))
  have p: "map_of (tables (view c1)) ''products'' \<noteq> None \<and> budget w1 \<noteq> 0"
    using n by (simp add: w1(3) schema_def)
  from init_db_fresh_only [OF c w1(2) o] p
  have second: "\<exists>w'. init_db w1 = Raised OperationalError w' \<and> conn w' = conn w1 \<and> fs w' = fs w1"
    by blast
  let ?self = "\<lparr>indexdb_path = ex_live, indexdb_path_part = [''data'', ''index.sqlite3.part'']\<rparr>"
  let ?v = "ex_stale\<lparr>conn := None, cur := Unset\<rparr>"
  have i: "init ex_live ex_stale = Done ?self ?v"
    by (simp add: init_def with_name_def path_name_def ex_live_def)
  have q: "path_parent ex_live \<in> dirs ?v \<and> indexdb_path_part ?self \<notin> dirs ?v \<and> 14 \<le> budget ?v"
    by (simp add: path_parent_def ex_live_def ex_stale_def)
  from t i q have third: "\<exists>v' c'. prepare ?self ?v = Done () v' \<and> conn v' = Some c' \<and>
      view c' = schema \<and> in_transaction c'"
    by blast
  have stale: "file_rows ''products'' (fs ex_stale [''data'', ''index.sqlite3.part'']) =
      [product_values ex_externals ex_product]"
    by (simp add: file_rows_def ex_stale_def schema_def map_of_put_table)
  from first second third stale show ?thesis by (simp add: w1')
qed

text \<open>
  C1. A rebuild is the construction of the processor, \<open>prepare\<close>, \<open>process\<close> for each
  bundle and \<open>finish\<close>, in a world where any operation on the storage or the file system
  may be the one that fails. If the rebuild raises, at whatever point, the file at the
  live path is what it was before. The staging path is the live path with the suffix
  \<open>.part\<close> and differs from it, and after \<open>prepare\<close> and all of \<open>process\<close>, raised or
  not, every file other than the staging file is what it was. A rebuild that returns
  has moved the staging file to the live path.
\<close>

theorem rebuild_atomic:
  "(\<forall>e w'. rebuild E live bundles w = Raised e w' \<longrightarrow> fs w' live = fs w live) \<and>
   (\<forall>self w0. init live w = Done self w0 \<longrightarrow>
      indexdb_path self = live \<and> indexdb_path_part self \<noteq> live \<and>
      with_name live (path_name live @ ''.part'') = Inr (indexdb_path_part self) \<and>
      (\<forall>q. q \<noteq> indexdb_path_part self \<longrightarrow>
         fs (world_of (and_then (prepare self w0) (\<lambda>_. process_all E bundles))) q = fs w q)) \<and>
   (\<forall>u w'. rebuild E live bundles w = Done u w' \<longrightarrow>
      fs w' live \<noteq> None \<and>
      (\<forall>part. with_name live (path_name live @ ''.part'') = Inr part \<longrightarrow> fs w' part = None))"
proof (intro conjI allI impI)
  fix e w'
  assume r: "rebuild E live bundles w = Raised e w'"
  show "fs w' live = fs w live"
  proof (cases "init live w")
    case (Raised e0 w0)
    then show ?thesis using r init_Raised [OF Raised] by (simp add: rebuild_def)
  next
    case (Done self w0)
    note i = init_Done [OF Done]
    have s: "safe (indexdb_path_part self) live (\<lambda>w. and_then (prepare self w) (\<lambda>_ w.
           and_then (process_all E bundles w) (\<lambda>_. finish self)))"
      by (rule safe_run) (simp_all add: i(1) i(2) [symmetric])
    have "on_path (indexdb_path_part self) w0" by (simp add: i(3) on_path_init)
    moreover have "and_then (prepare self w0) (\<lambda>_ w.
           and_then (process_all E bundles w) (\<lambda>_. finish self)) = Raised e w'"
      using r Done by (simp add: rebuild_def)
    ultimately have "fs w' live = fs w0 live" using s by (auto simp: safe_def)
    then show ?thesis by (simp add: i(3))
  qed
next
  fix self w0
  assume d: "init live w = Done self w0"
  note i = init_Done [OF d]
  show "indexdb_path self = live" by (rule i(1))
  show "indexdb_path_part self \<noteq> live" by (rule i(2))
  show "with_name live (path_name live @ ''.part'') = Inr (indexdb_path_part self)"
    using d by (auto simp: init_def split: sum.splits)
  fix q assume q: "q \<noteq> indexdb_path_part self"
  have "on_path (indexdb_path_part self) w0" by (simp add: i(3) on_path_init)
  from confinedD(2) [OF confined_prepare_process [OF refl] this q]
  show "fs (world_of (and_then (prepare self w0) (\<lambda>_. process_all E bundles))) q = fs w q"
    by (simp add: i(3))
next
  fix u w'
  assume r: "rebuild E live bundles w = Done u w'"
  then obtain self w0 w1 w2 v1 v2 where
    d: "init live w = Done self w0" and f: "finish self w2 = Done u w'"
    by (auto simp: rebuild_def dest!: and_then_Done)
  note i = init_Done [OF d]
  from finish_Done [OF f] i show "fs w' live \<noteq> None" by simp
  fix part assume "with_name live (path_name live @ ''.part'') = Inr part"
  then have "part = indexdb_path_part self" using d by (auto simp: init_def split: sum.splits)
  then show "fs w' part = None" using finish_Done [OF f] i by simp
qed

theorem rebuild_atomic_witness:
  "\<not> is_done (rebuild ex_externals ex_live ex_bundles ex_published) \<and>
   fs (world_of (rebuild ex_externals ex_live ex_bundles ex_published)) ex_live = Some schema \<and>
   is_done (rebuild ex_externals ex_live ex_bundles (ex_published\<lparr>budget := 30\<rparr>)) \<and>
   fs (world_of (rebuild ex_externals ex_live ex_bundles (ex_published\<lparr>budget := 30\<rparr>)))
     [''data'', ''index.sqlite3.part''] = None"
proof -
  have n: "\<not> is_done (rebuild ex_externals ex_live ex_bundles ex_published)" by code_simp
  then obtain e where
    "rebuild ex_externals ex_live ex_bundles ex_published =
       Raised e (world_of (rebuild ex_externals ex_live ex_bundles ex_published))"
    using is_raised by blast
  with rebuild_atomic [of ex_externals ex_live ex_bundles ex_published]
  have "fs (world_of (rebuild ex_externals ex_live ex_bundles ex_published)) ex_live =
      fs ex_published ex_live" by blast
  then have a: "fs (world_of (rebuild ex_externals ex_live ex_bundles ex_published)) ex_live = Some schema"
    by (simp add: ex_published_def)
  have d: "is_done (rebuild ex_externals ex_live ex_bundles (ex_published\<lparr>budget := 30\<rparr>))"
    by code_simp
  then have h: "rebuild ex_externals ex_live ex_bundles (ex_published\<lparr>budget := 30\<rparr>) =
      Done () (world_of (rebuild ex_externals ex_live ex_bundles (ex_published\<lparr>budget := 30\<rparr>)))"
    by (rule is_done_unit)
  have p: "with_name ex_live (path_name ex_live @ ''.part'') = Inr [''data'', ''index.sqlite3.part'']"
    by (simp add: with_name_def path_name_def ex_live_def)
  from rebuild_atomic [of ex_externals ex_live ex_bundles "ex_published\<lparr>budget := 30\<rparr>"] h p
  have "fs (world_of (rebuild ex_externals ex_live ex_bundles (ex_published\<lparr>budget := 30\<rparr>)))
     [''data'', ''index.sqlite3.part''] = None" by blast
  with n a d show ?thesis by blast
qed

text \<open>
  C6. Two rebuilds over the same bundles that both return publish the same rows in
  each of the three tables, whatever state each starts from (the second may start from
  what the first has left) and in whatever order each of them iterates its sets of
  categories: the rows are a function of the bundles alone.
\<close>

theorem rebuild_deterministic:
  assumes "rebuild E live bundles w = Done u w'"
    and "rebuild (E\<lparr>set_iter := f\<rparr>) live bundles v = Done u' v'"
    and "valid_iter (set_iter E)" and "valid_iter f"
  shows "file_rows ''products'' (fs v' live) = file_rows ''products'' (fs w' live) \<and>
         file_rows ''changelog'' (fs v' live) = file_rows ''changelog'' (fs w' live) \<and>
         file_rows ''changelog_summary'' (fs v' live) = file_rows ''changelog_summary'' (fs w' live)"
proof -
  have f: "valid_iter (set_iter (E\<lparr>set_iter := f\<rparr>))" using assms(4) by simp
  have "file_rows n (fs v' live) = file_rows n (fs w' live)"
    if "n = ''products'' \<or> n = ''changelog'' \<or> n = ''changelog_summary''" for n
    using rebuild_rows [OF assms(1,3) that] rebuild_rows [OF assms(2) f that]
    by (simp add: expected_rows_set_iter)
  then show ?thesis by simp
qed

theorem rebuild_deterministic_witness:
  "file_rows ''changelog_summary''
     (fs (world_of (rebuild ex_externals' ex_live ex_bundles
        ((world_of (rebuild ex_externals ex_live ex_bundles (ex_published\<lparr>budget := 30\<rparr>)))
           \<lparr>budget := 30\<rparr>))) ex_live) =
   file_rows ''changelog_summary''
     (fs (world_of (rebuild ex_externals ex_live ex_bundles (ex_published\<lparr>budget := 30\<rparr>))) ex_live) \<and>
   file_rows ''changelog_summary''
     (fs (world_of (rebuild ex_externals ex_live ex_bundles (ex_published\<lparr>budget := 30\<rparr>))) ex_live) =
     [[SqlInt 7, SqlText ''Foo Bar'', SqlReal 5, SqlText ''download,property''],
      [SqlInt 7, SqlText ''Foo Bar'', SqlReal 9, SqlText ''build'']]"
proof -
  let ?w = "ex_published\<lparr>budget := 30\<rparr>"
  let ?r1 = "rebuild ex_externals ex_live ex_bundles ?w"
  let ?v = "(world_of ?r1)\<lparr>budget := 30\<rparr>"
  let ?r2 = "rebuild ex_externals' ex_live ex_bundles ?v"
  have "is_done ?r1" by code_simp
  then have h1: "?r1 = Done () (world_of ?r1)" by (rule is_done_unit)
  have "is_done ?r2" by code_simp
  then have "?r2 = Done () (world_of ?r2)" by (rule is_done_unit)
  then have h2: "rebuild (ex_externals\<lparr>set_iter := (\<lambda>S. rev (sorted_list_of_set S))\<rparr>)
      ex_live ex_bundles ?v = Done () (world_of ?r2)"
    by (simp only: ex_externals'_def)
  have v1: "valid_iter (set_iter ex_externals)"
    by (simp add: ex_externals_def valid_iter_sorted_list_of_set)
  note t = rebuild_deterministic [OF h1 h2 v1 valid_iter_rev]
  have "file_rows ''changelog_summary'' (fs (world_of ?r1) ex_live) =
     [[SqlInt 7, SqlText ''Foo Bar'', SqlReal 5, SqlText ''download,property''],
      [SqlInt 7, SqlText ''Foo Bar'', SqlReal 9, SqlText ''build'']]"
    by code_simp
  with t show ?thesis by blast
qed

end
